theory Spec2Isabelle
  imports Main
begin

section \<open>Qyvr: pattern-addressed hook dispatch\<close>

text \<open>
  A shallow embedding of \<^verbatim>\<open>Qyvr.mjs\<close> (functions \<^verbatim>\<open>Qyvent\<close>, \<^verbatim>\<open>addEvent\<close>,
  \<^verbatim>\<open>addHook\<close>, \<^verbatim>\<open>fire\<close>) and of the class-based variant of the same engine
  (classes \<^verbatim>\<open>Qyvent\<close> and \<^verbatim>\<open>Qyvr\<close> with \<^verbatim>\<open>filter\<close>, \<^verbatim>\<open>has\<close>,
  \<^verbatim>\<open>hook\<close>, \<^verbatim>\<open>fire\<close>).

  JavaScript strings are \<^typ>\<open>string\<close>; the value \<^verbatim>\<open>undefined\<close> of a slot that
  otherwise holds a string is \<^const>\<open>None\<close>. Arrays are lists, a \<^verbatim>\<open>Map\<close> keyed by
  strings is a partial function. Mutation of an object is explicit state passing: an
  operation takes the object and returns the updated one. Callbacks are host code and
  enter as functions on the execution context and on the argument array of \<^verbatim>\<open>fire\<close>,
  the two objects that a call hands to them; what they do to anything else is outside
  the model. The proxy layer of \<^verbatim>\<open>Qyvr.mjs\<close> and the \<^verbatim>\<open>method\<close> and \<^verbatim>\<open>property\<close>
  helpers, which only call the operations below, are not embedded.
\<close>

subsection \<open>JavaScript values\<close>

datatype val = Undefined | Null | Bool bool | Num int | Str string

text \<open>Truthiness, as the test \<^verbatim>\<open>if(ctx.stopped)\<close> reads a value.\<close>

fun truthy :: "val \<Rightarrow> bool" where
  "truthy Undefined = False"
| "truthy Null = False"
| "truthy (Bool b) = b"
| "truthy (Num n) = (n \<noteq> 0)"
| "truthy (Str s) = (s \<noteq> [])"

text \<open>
  What can be thrown: the \<^verbatim>\<open>TypeError\<close> that the engine raises when it reads a property
  of \<^verbatim>\<open>undefined\<close> (the result of \<^verbatim>\<open>Qyvents.get(id)\<close> for an id that is not a key),
  and whatever value a callback throws or rejects with.
\<close>

datatype error = TypeError | Thrown val

text \<open>
  The state of a promise once it has been awaited: \<^verbatim>\<open>await\<close> yields the value, throws
  the rejection reason, or never resumes.
\<close>

datatype 'a outcome = Resolved 'a | Rejected error | Pending

subsection \<open>Strings and arrays\<close>

text \<open>\<^verbatim>\<open>s.split('.')\<close>: always at least one segment; the empty string gives \<^verbatim>\<open>['']\<close>.\<close>

fun split_dot :: "string \<Rightarrow> string list" where
  "split_dot [] = [[]]"
| "split_dot (c # cs) =
     (if c = CHR ''.'' then [] # split_dot cs
      else (case split_dot cs of [] \<Rightarrow> [[c]] | w # ws \<Rightarrow> (c # w) # ws))"

text \<open>\<^verbatim>\<open>s.split('.', n)\<close>: the first \<open>n\<close> segments.\<close>

definition split_dot_limit :: "string \<Rightarrow> nat \<Rightarrow> string list" where
  "split_dot_limit s n = take n (split_dot s)"

text \<open>\<^verbatim>\<open>xs.join('.')\<close>.\<close>

fun join_dot :: "string list \<Rightarrow> string" where
  "join_dot [] = []"
| "join_dot [x] = x"
| "join_dot (x # y # ys) = x @ CHR ''.'' # join_dot (y # ys)"

text \<open>
  \<^verbatim>\<open>xs.shift()\<close> and \<^verbatim>\<open>xs.pop()\<close>: the removed element (\<^verbatim>\<open>undefined\<close> on an empty
  array) and the array that is left.
\<close>

definition shift :: "'a list \<Rightarrow> 'a option \<times> 'a list" where
  "shift xs = (case xs of [] \<Rightarrow> (None, []) | x # r \<Rightarrow> (Some x, r))"

definition pop :: "'a list \<Rightarrow> 'a option \<times> 'a list" where
  "pop xs = (if xs = [] then (None, []) else (Some (last xs), butlast xs))"

text \<open>\<^verbatim>\<open>xs[i]\<close>: \<^verbatim>\<open>undefined\<close> out of range.\<close>

definition at :: "'a list \<Rightarrow> nat \<Rightarrow> 'a option" where
  "at xs i = (if i < length xs then Some (xs ! i) else None)"

text \<open>\<^verbatim>\<open>xs.indexOf(x)\<close> on an array of strings: \<open>-1\<close> when absent, also for \<^verbatim>\<open>undefined\<close>.\<close>

fun indexOf_from :: "string list \<Rightarrow> string \<Rightarrow> int \<Rightarrow> int" where
  "indexOf_from [] x i = -1"
| "indexOf_from (y # ys) x i = (if y = x then i else indexOf_from ys x (i + 1))"

definition indexOf :: "string list \<Rightarrow> string option \<Rightarrow> int" where
  "indexOf xs x = (case x of None \<Rightarrow> -1 | Some s \<Rightarrow> indexOf_from xs s 0)"

text \<open>
  \<^verbatim>\<open>xs.splice(start)\<close> with one argument: everything from the start index on is
  removed; a negative start counts from the end. The result is the array that is left.
\<close>

definition splice :: "'a list \<Rightarrow> int \<Rightarrow> 'a list" where
  "splice xs start =
     (let len = int (length xs);
          actual = (if start < 0 then max (len + start) 0 else min start len)
      in take (nat actual) xs)"

text \<open>
  \<^verbatim>\<open>[...new Set(xs)]\<close>: a set keeps insertion order, and adding a present element
  changes nothing.
\<close>

definition set_add :: "'a list \<Rightarrow> 'a \<Rightarrow> 'a list" where
  "set_add s x = (if x \<in> set s then s else s @ [x])"

definition new_Set :: "'a list \<Rightarrow> 'a list" where
  "new_Set xs = foldl set_add [] xs"

subsection \<open>Patterns\<close>

text \<open>
  The three lines that every operation starts with:
  \<^verbatim>\<open>name = pattern.split('.'), id = name.shift(), action = name.pop()\<close>.
\<close>

definition parse :: "string \<Rightarrow> string option \<times> string list \<times> string option" where
  "parse pattern =
     (let name0 = split_dot pattern;
          (id', name1) = shift name0;
          (action', name') = pop name1
      in (id', name', action'))"

subsection \<open>Execution context, hooks and namespaces\<close>

text \<open>
  The rest parameter \<^verbatim>\<open>...args\<close> of \<^verbatim>\<open>fire\<close> is one array object. The literal of
  \<^verbatim>\<open>ctx\<close> stores that very array under \<^verbatim>\<open>args\<close>, and every call
  \<^verbatim>\<open>hook.cb.call(ctx, ...args)\<close> spreads it anew: what a hook writes into
  \<^verbatim>\<open>this.args\<close> is what the later hooks get as arguments. So the array is a piece of
  state of its own, next to the context, and the property \<^verbatim>\<open>args\<close> of the context
  is a reference: to that array, or to whatever a hook has assigned instead.
\<close>

datatype args_prop = Rest_array | Replaced val

text \<open>
  The object \<^verbatim>\<open>ctx\<close> that \<^verbatim>\<open>fire\<close> builds and binds as \<^verbatim>\<open>this\<close>. \<open>props\<close> holds the
  properties other than \<^verbatim>\<open>args\<close>, \<^verbatim>\<open>return\<close> and \<^verbatim>\<open>stop\<close>; \<^verbatim>\<open>stopped\<close> is one of
  them, set by \<^verbatim>\<open>stop()\<close>.
\<close>

record fire_ctx =
  props :: "string \<rightharpoonup> val"
  args :: args_prop
  return :: val

definition stopped :: "fire_ctx \<Rightarrow> val" where
  "stopped c = (case props c ''stopped'' of None \<Rightarrow> Undefined | Some v \<Rightarrow> v)"

definition stop :: "fire_ctx \<Rightarrow> fire_ctx" where
  "stop c = c\<lparr>props := (props c)(''stopped'' \<mapsto> Bool True)\<rparr>"

text \<open>
  A callback is host code. It is called with the context as \<^verbatim>\<open>this\<close> and with the
  elements that the rest array holds at that moment as arguments. It is modelled by what
  \<^verbatim>\<open>await Promise.resolve(cb.call(ctx, ...args))\<close> observes: the awaited result
  together with the context and the rest array as the callback left them, a rejection,
  or no settlement.
\<close>

type_synonym callback = "fire_ctx \<Rightarrow> val list \<Rightarrow> (val \<times> fire_ctx \<times> val list) outcome"

text \<open>
  The object \<^verbatim>\<open>hookObj = { id, name, action, cb, phase }\<close>. \<open>ref\<close> is the identity of
  the object, which \<^verbatim>\<open>this.hooks.indexOf(hookObj)\<close> compares.
\<close>

record hook =
  ref :: nat
  hook_id :: "string option"
  name :: "string list"
  action :: "string option"
  cb :: callback
  phase :: "string option"

text \<open>
  A \<^verbatim>\<open>Qyvent\<close> instance. \<open>main\<close> is \<^verbatim>\<open>undefined\<close> until the constructor assigns it.
  \<open>next_ref\<close> is the identity the next object literal of \<^verbatim>\<open>hook\<close> gets.
\<close>

record qyvent =
  qyvent_id :: string
  ctx :: "string \<rightharpoonup> val"
  phases :: "string list"
  main :: "string option"
  hooks :: "hook list"
  next_ref :: nat

type_synonym qyvents = "string \<rightharpoonup> qyvent"

text \<open>\<^verbatim>\<open>Qyvents.get(id)\<close>; the keys are strings, so \<^verbatim>\<open>undefined\<close> is no key.\<close>

definition get :: "qyvents \<Rightarrow> string option \<Rightarrow> qyvent option" where
  "get Qyvents id' = (case id' of None \<Rightarrow> None | Some i \<Rightarrow> Qyvents i)"

subsection \<open>Matching\<close>

text \<open>
  \<^verbatim>\<open>hook.name.every((part, index) => part === pattern[index] || part === '*')\<close>
\<close>

fun every_part :: "string list \<Rightarrow> nat \<Rightarrow> string list \<Rightarrow> bool" where
  "every_part [] index pattern = True"
| "every_part (part # parts) index pattern =
     ((Some part = at pattern index \<or> part = ''*'') \<and> every_part parts (Suc index) pattern)"

text \<open>The predicate that \<^verbatim>\<open>fire\<close> of \<^verbatim>\<open>Qyvr.mjs\<close> passes to \<^verbatim>\<open>event.hooks.filter\<close>.\<close>

definition fire_match :: "string option \<Rightarrow> string option \<Rightarrow> string list \<Rightarrow> hook \<Rightarrow> bool" where
  "fire_match id' action' pattern h =
     (if id' \<noteq> hook_id h \<or> action' \<noteq> action h \<or> length (name h) \<noteq> length pattern then False
      else every_part (name h) 0 pattern)"

text \<open>\<^verbatim>\<open>Qyvent.filter(pattern)\<close> of the class-based variant.\<close>

definition Qyvent_filter :: "qyvent \<Rightarrow> string \<Rightarrow> hook list" where
  "Qyvent_filter ev pattern =
     (let (id', name', action') = parse pattern
      in filter (\<lambda>h.
           if id' \<noteq> hook_id h \<or> action' \<noteq> action h \<or> length (name h) \<noteq> length name'
           then False
           else every_part (name h) 0 name') (hooks ev))"

subsection \<open>The constructor of \<^verbatim>\<open>Qyvent\<close>\<close>

text \<open>\<^verbatim>\<open>phase.endsWith('*')\<close> and \<^verbatim>\<open>phase.slice(0, -1)\<close>.\<close>

definition endsWith_star :: "string \<Rightarrow> bool" where
  "endsWith_star s = (s \<noteq> [] \<and> last s = CHR ''*'')"

definition slice_0_m1 :: "string \<Rightarrow> string" where
  "slice_0_m1 s = butlast s"

text \<open>
  \<^verbatim>\<open>phases.map(phase => { if(phase.endsWith('*')) { return this.main = phase.slice(0, -1) }
  else { return phase } })\<close>: the array that \<^verbatim>\<open>map\<close> returns, and \<^verbatim>\<open>this.main\<close> as
  the assignments leave it.
\<close>

fun map_phases :: "string list \<Rightarrow> string option \<Rightarrow> string list \<times> string option" where
  "map_phases [] m = ([], m)"
| "map_phases (p # ps) m =
     (if endsWith_star p
      then (case map_phases ps (Some (slice_0_m1 p)) of (r, m') \<Rightarrow> (slice_0_m1 p # r, m'))
      else (case map_phases ps m of (r, m') \<Rightarrow> (p # r, m')))"

text \<open>
  \<^verbatim>\<open>constructor(id, phases = ['main*'], ctx = {})\<close>; an argument that is left out or
  \<^verbatim>\<open>undefined\<close> is \<^const>\<open>None\<close>.
\<close>

definition Qyvent :: "string \<Rightarrow> string list option \<Rightarrow> (string \<rightharpoonup> val) option \<Rightarrow> qyvent" where
  "Qyvent id' phases' ctx' =
     (let ps = (case phases' of None \<Rightarrow> [''main*''] | Some ps \<Rightarrow> ps);
          c = (case ctx' of None \<Rightarrow> Map.empty | Some c \<Rightarrow> c);
          (ps', m) = map_phases ps None
      in \<lparr>qyvent_id = id', ctx = c, phases = ps', main = m, hooks = [], next_ref = 0\<rparr>)"

subsection \<open>Registering and unregistering a hook\<close>

text \<open>
  \<^verbatim>\<open>this.hooks.sort((a, b) => this.phases.indexOf(a.phase) - this.phases.indexOf(b.phase))\<close>.
  \<^verbatim>\<open>Array.prototype.sort\<close> is a stable sort; with a comparator that is a difference of
  integer keys it is the stable sort by that key, which is \<^const>\<open>sort_key\<close>.
\<close>

definition phase_index :: "string list \<Rightarrow> hook \<Rightarrow> int" where
  "phase_index ps h = indexOf ps (phase h)"

text \<open>
  The object literal of \<^verbatim>\<open>hook(pattern, cb, phase = this.main)\<close>: a \<^verbatim>\<open>phase\<close> that is
  left out or \<^verbatim>\<open>undefined\<close> is replaced by \<^verbatim>\<open>this.main\<close>.
\<close>

definition hookObj :: "qyvent \<Rightarrow> string \<Rightarrow> callback \<Rightarrow> string option \<Rightarrow> hook" where
  "hookObj ev pattern cb' phase' =
     (let phase1 = (case phase' of None \<Rightarrow> main ev | Some p \<Rightarrow> Some p);
          (id', name', action') = parse pattern
      in \<lparr>ref = next_ref ev, hook_id = id', name = name', action = action',
          cb = cb', phase = phase1\<rparr>)"

text \<open>
  \<^verbatim>\<open>Qyvent.hook\<close>: push, sort, and return the handle. The result is the namespace as
  the call leaves it and the handle.
\<close>

definition Qyvent_hook :: "qyvent \<Rightarrow> string \<Rightarrow> callback \<Rightarrow> string option \<Rightarrow> qyvent \<times> nat" where
  "Qyvent_hook ev pattern cb' phase' =
     (let h = hookObj ev pattern cb' phase';
          pushed = hooks ev @ [h];
          sorted' = sort_key (phase_index (phases ev)) pushed
      in (ev\<lparr>hooks := sorted', next_ref := Suc (next_ref ev)\<rparr>, ref h))"

text \<open>\<^verbatim>\<open>this.hooks.indexOf(hookObj)\<close>: the first index holding that very object, or \<open>-1\<close>.\<close>

fun indexOf_hook :: "hook list \<Rightarrow> nat \<Rightarrow> int \<Rightarrow> int" where
  "indexOf_hook [] r i = -1"
| "indexOf_hook (h # hs) r i = (if ref h = r then i else indexOf_hook hs r (i + 1))"

text \<open>
  The handle that \<^verbatim>\<open>hook\<close> returns, \<^verbatim>\<open>() => this.hooks.splice(this.hooks.indexOf(hookObj))\<close>,
  invoked on the namespace as it is at that moment. The handle is the identity of
  \<^verbatim>\<open>hookObj\<close>.
\<close>

definition unregister :: "qyvent \<Rightarrow> nat \<Rightarrow> qyvent" where
  "unregister ev r = ev\<lparr>hooks := splice (hooks ev) (indexOf_hook (hooks ev) r 0)\<rparr>"

subsection \<open>\<^verbatim>\<open>has\<close>\<close>

text \<open>\<^verbatim>\<open>xs.findIndex(p)\<close>.\<close>

fun findIndex_from :: "('a \<Rightarrow> bool) \<Rightarrow> 'a list \<Rightarrow> int \<Rightarrow> int" where
  "findIndex_from p [] i = -1"
| "findIndex_from p (x # xs) i = (if p x then i else findIndex_from p xs (i + 1))"

definition findIndex :: "('a \<Rightarrow> bool) \<Rightarrow> 'a list \<Rightarrow> int" where
  "findIndex p xs = findIndex_from p xs 0"

text \<open>\<^verbatim>\<open>Qyvent.has(pattern)\<close> of \<^verbatim>\<open>Qyvr.mjs\<close>.\<close>

definition Qyvent_has :: "qyvent \<Rightarrow> string \<Rightarrow> bool" where
  "Qyvent_has ev pattern =
     (let pattern0 = new_Set (qyvent_id ev # split_dot pattern);
          (id', pattern1) = shift pattern0;
          (action', pattern') = pop pattern1
      in findIndex (\<lambda>h. id' = hook_id h \<and> action' = action h
                          \<and> join_dot pattern' = join_dot (name h)) (hooks ev) > -1)"

text \<open>
  \<^verbatim>\<open>Qyvr.has(pattern)\<close> of the class-based variant: \<^verbatim>\<open>event && ...\<close> is
  \<^verbatim>\<open>undefined\<close> when the namespace is missing, a boolean otherwise.
\<close>

definition Qyvr_has :: "qyvents \<Rightarrow> string \<Rightarrow> val" where
  "Qyvr_has events pattern =
     (let (id', pattern', action') = parse pattern;
          event = get events id'
      in case event of
           None \<Rightarrow> Undefined
         | Some ev \<Rightarrow>
             Bool (findIndex (\<lambda>h. id' = hook_id h \<and> action' = action h
                                   \<and> join_dot pattern' = join_dot (name h)) (hooks ev) > -1))"

subsection \<open>The registry\<close>

definition addEvent :: "qyvents \<Rightarrow> string \<Rightarrow> string list option \<Rightarrow> (string \<rightharpoonup> val) option \<Rightarrow> qyvents" where
  "addEvent Qyvents id' phases' ctx' = Qyvents(id' \<mapsto> Qyvent id' phases' ctx')"

definition delEvent :: "qyvents \<Rightarrow> string \<Rightarrow> qyvents" where
  "delEvent Qyvents id' = Qyvents(id' := None)"

text \<open>
  \<^verbatim>\<open>addHook\<close> (and \<^verbatim>\<open>Qyvr.hook\<close> of the class-based variant, which has the same body):
  \<^verbatim>\<open>event.hook\<close> on an \<^verbatim>\<open>undefined\<close> event throws the \<^verbatim>\<open>TypeError\<close>. The namespace
  object is updated in place, so the registry holds the updated namespace.
\<close>

definition addHook :: "qyvents \<Rightarrow> string \<Rightarrow> callback \<Rightarrow> string option \<Rightarrow> error + qyvents \<times> nat" where
  "addHook Qyvents pattern cb' phase' =
     (let id' = at (split_dot_limit pattern 1) 0;
          event = get Qyvents id'
      in case (id', event) of
           (Some i, Some ev) \<Rightarrow>
             (let (ev', handle) = Qyvent_hook ev pattern cb' phase' in Inr (Qyvents(i \<mapsto> ev'), handle))
         | _ \<Rightarrow> Inl TypeError)"

subsection \<open>\<^verbatim>\<open>fire\<close>\<close>

text \<open>
  \<^verbatim>\<open>ctx = { ...event.ctx, args, return: undefined, stop() { ctx.stopped = true } }\<close>: the
  later entries of the literal replace what the spread copied under the same key.
\<close>

definition new_ctx :: "qyvent \<Rightarrow> fire_ctx" where
  "new_ctx event =
     \<lparr>props = (\<lambda>k. if k \<in> {''args'', ''return'', ''stop''} then None else ctx event k),
      args = Rest_array, return = Undefined\<rparr>"

text \<open>
  The loop \<^verbatim>\<open>for(const hook of hooks) { ... }\<close>, from a context and a rest array. Each
  call gets the rest array as the calls before it left it. The first component of the
  result lists the hooks whose callback was called, in the order of the calls; the
  second is the context when the loop is left, the rejection that ended it, or
  \<^const>\<open>Pending\<close> when an awaited callback never settles. The \<^verbatim>\<open>console.log\<close> line has
  no effect on either and is left out.
\<close>

fun run_hooks :: "hook list \<Rightarrow> fire_ctx \<Rightarrow> val list \<Rightarrow> hook list \<times> fire_ctx outcome" where
  "run_hooks [] c args' = ([], Resolved c)"
| "run_hooks (h # hs) c args' =
     (case cb h c args' of
        Pending \<Rightarrow> ([h], Pending)
      | Rejected e \<Rightarrow> ([h], Rejected e)
      | Resolved (result, c1, args1) \<Rightarrow>
          (let c2 = (if result \<noteq> Undefined then c1\<lparr>return := result\<rparr> else c1)
           in if truthy (stopped c2) then ([h], Resolved c2)
              else (case run_hooks hs c2 args1 of (calls, out) \<Rightarrow> (h # calls, out))))"

text \<open>\<^verbatim>\<open>return ctx.return\<close> at the end of the async function.\<close>

fun return_of :: "fire_ctx outcome \<Rightarrow> val outcome" where
  "return_of (Resolved c) = Resolved (return c)"
| "return_of (Rejected e) = Rejected e"
| "return_of Pending = Pending"

text \<open>\<^verbatim>\<open>fire\<close> of \<^verbatim>\<open>Qyvr.mjs\<close>: the calls made and the state of the returned promise.\<close>

definition fire :: "qyvents \<Rightarrow> string \<Rightarrow> val list \<Rightarrow> hook list \<times> val outcome" where
  "fire Qyvents pattern args' =
     (let (id', pattern', action') = parse pattern;
          event = get Qyvents id'
      in case event of
           None \<Rightarrow> ([], Rejected TypeError)
         | Some ev \<Rightarrow>
             (let c = new_ctx ev;
                  hooks' = filter (fire_match id' action' pattern') (hooks ev);
                  (calls, out) = run_hooks hooks' c args'
              in (calls, return_of out)))"

text \<open>\<^verbatim>\<open>Qyvr.fire\<close> of the class-based variant.\<close>

definition Qyvr_fire :: "qyvents \<Rightarrow> string \<Rightarrow> val list \<Rightarrow> hook list \<times> val outcome" where
  "Qyvr_fire events pattern args' =
     (let id' = at (split_dot_limit pattern 1) 0;
          event = get events id'
      in case event of
           None \<Rightarrow> ([], Rejected TypeError)
         | Some ev \<Rightarrow>
             (let c = new_ctx ev;
                  (calls, out) = run_hooks (Qyvent_filter ev pattern) c args'
              in (calls, return_of out)))"

subsection \<open>Describing the order of the collection\<close>

text \<open>
  Hooks get their identities in the order of their registration. The collection is in
  registration order when, among the hooks of any one phase index, a hook registered
  earlier stands before a hook registered later (and no stored identity is still to be
  given out).
\<close>

definition registration_order :: "qyvent \<Rightarrow> bool" where
  "registration_order ev =
     ((\<forall>h \<in> set (hooks ev). ref h < next_ref ev)
      \<and> (\<forall>k. sorted_wrt (<)
             (map ref (filter (\<lambda>h. phase_index (phases ev) h = k) (hooks ev)))))"

subsection \<open>Describing a run of the loop\<close>

text \<open>
  The state of the loop is the context together with the rest array. The state after
  one hook has been awaited and its result recorded: a result other than
  \<^verbatim>\<open>undefined\<close> overwrites the return slot. A callback that does not resolve leaves
  nothing to record.
\<close>

definition after_hook :: "hook \<Rightarrow> fire_ctx \<times> val list \<Rightarrow> fire_ctx \<times> val list" where
  "after_hook h s =
     (case cb h (fst s) (snd s) of
        Resolved (result, c1, args1) \<Rightarrow>
          (if result \<noteq> Undefined then c1\<lparr>return := result\<rparr> else c1, args1)
      | _ \<Rightarrow> s)"

text \<open>The state after a sequence of hooks, one after the other.\<close>

definition state_after :: "hook list \<Rightarrow> fire_ctx \<times> val list \<Rightarrow> fire_ctx \<times> val list" where
  "state_after hs s = foldl (\<lambda>s h. after_hook h s) s hs"

fun resolves :: "(val \<times> fire_ctx \<times> val list) outcome \<Rightarrow> bool" where
  "resolves (Resolved x) = True"
| "resolves (Rejected e) = False"
| "resolves Pending = False"

text \<open>
  Every hook of the sequence, called in turn, resolves and leaves \<^verbatim>\<open>ctx.stopped\<close>
  falsy: the loop runs through the whole sequence and goes on.
\<close>

fun passes :: "hook list \<Rightarrow> fire_ctx \<times> val list \<Rightarrow> bool" where
  "passes [] s = True"
| "passes (h # hs) s =
     (resolves (cb h (fst s) (snd s)) \<and> \<not> truthy (stopped (fst (after_hook h s)))
      \<and> passes hs (after_hook h s))"

subsection \<open>Example callbacks and namespaces\<close>

text \<open>\<^verbatim>\<open>function() { return v }\<close>\<close>

definition cb_return :: "val \<Rightarrow> callback" where
  "cb_return v c args' = Resolved (v, c, args')"

text \<open>\<^verbatim>\<open>function() { this.stop() }\<close>\<close>

definition cb_stop :: callback where
  "cb_stop c args' = Resolved (Undefined, stop c, args')"

text \<open>\<^verbatim>\<open>function() { throw v }\<close>\<close>

definition cb_throw :: "val \<Rightarrow> callback" where
  "cb_throw v c args' = Rejected (Thrown v)"

text \<open>
  \<^verbatim>\<open>function() { this.args[0] = v }\<close>: a write into the rest array while \<^verbatim>\<open>this.args\<close>
  still refers to it.
\<close>

definition cb_set_arg0 :: "val \<Rightarrow> callback" where
  "cb_set_arg0 v c args' =
     (case args c of
        Rest_array \<Rightarrow> Resolved (Undefined, c, (case args' of [] \<Rightarrow> [v] | x # r \<Rightarrow> v # r))
      | Replaced w \<Rightarrow> Resolved (Undefined, c, args'))"

text \<open>\<^verbatim>\<open>function(x) { return x }\<close>\<close>

definition cb_first_arg :: callback where
  "cb_first_arg c args' = Resolved ((case args' of [] \<Rightarrow> Undefined | x # r \<Rightarrow> x), c, args')"

text \<open>
  \<^verbatim>\<open>new Qyvent('sys', ['pre', 'main*', 'post'])\<close> with hooks registered for
  \<^verbatim>\<open>'sys.login.call'\<close> into \<^verbatim>\<open>post\<close> and \<^verbatim>\<open>pre\<close>, in this order.
\<close>

definition sys_post_pre :: qyvent where
  "sys_post_pre =
     fst (Qyvent_hook
       (fst (Qyvent_hook (Qyvent ''sys'' (Some [''pre'', ''main*'', ''post'']) None)
          ''sys.login.call'' (cb_return (Str ''late'')) (Some ''post'')))
       ''sys.login.call'' (cb_return (Str ''early'')) (Some ''pre''))"

text \<open>A third hook in the default phase, which stops, or throws.\<close>

definition sys_stop :: qyvent where
  "sys_stop = fst (Qyvent_hook sys_post_pre ''sys.login.call'' cb_stop None)"

definition sys_throw :: qyvent where
  "sys_throw = fst (Qyvent_hook sys_post_pre ''sys.login.call'' (cb_throw (Str ''boom'')) None)"

text \<open>\<^verbatim>\<open>new Qyvent('nodes')\<close> with one wildcard hook.\<close>

definition nodes_star :: qyvent where
  "nodes_star =
     fst (Qyvent_hook (Qyvent ''nodes'' None None) ''nodes.*.set'' (cb_return Undefined) None)"

text \<open>\<^verbatim>\<open>new Qyvent('ns')\<close> with a hook at \<^verbatim>\<open>'ns.a.call'\<close>, then one at \<^verbatim>\<open>'ns.b.call'\<close>.\<close>

definition ns_a :: qyvent where
  "ns_a = fst (Qyvent_hook (Qyvent ''ns'' None None) ''ns.a.call'' (cb_return (Str ''a'')) None)"

definition ns_ab :: qyvent where
  "ns_ab = fst (Qyvent_hook ns_a ''ns.b.call'' (cb_return (Str ''b'')) None)"



text \<open>
  \<^verbatim>\<open>new Qyvent('ns')\<close> with two hooks at \<^verbatim>\<open>'ns.x.call'\<close>: the first writes into
  \<^verbatim>\<open>this.args\<close>, the second returns its first argument.
\<close>

definition ns_args :: qyvent where
  "ns_args =
     fst (Qyvent_hook
       (fst (Qyvent_hook (Qyvent ''ns'' None None) ''ns.x.call'' (cb_set_arg0 (Str ''changed'')) None))
       ''ns.x.call'' cb_first_arg None)"

text \<open>
  The namespace \<^verbatim>\<open>sys\<close> with a fourth hook, registered with the one-segment pattern
  \<^verbatim>\<open>'sys'\<close>, which returns a value, or throws.
\<close>

definition sys_one :: qyvent where
  "sys_one = fst (Qyvent_hook sys_stop ''sys'' (cb_return (Str ''one'')) None)"

definition sys_one_throw :: qyvent where
  "sys_one_throw = fst (Qyvent_hook sys_stop ''sys'' (cb_throw (Str ''boom'')) None)"

section \<open>Properties\<close>

subsection \<open>Evaluating the examples\<close>

lemmas eval_defs = Qyvent_def Qyvent_hook_def hookObj_def parse_def shift_def pop_def
  endsWith_star_def slice_0_m1_def phase_index_def indexOf_def unregister_def splice_def
  split_dot_limit_def at_def get_def

lemmas fire_eval = fire_def parse_def shift_def pop_def get_def new_ctx_def fire_match_def
  at_def cb_return_def cb_stop_def cb_throw_def cb_set_arg0_def cb_first_arg_def stop_def
  stopped_def after_hook_def

lemma sys_post_pre_eq:
  "sys_post_pre =
     \<lparr>qyvent_id = ''sys'', ctx = Map.empty, phases = [''pre'', ''main'', ''post''],
      main = Some ''main'',
      hooks = [\<lparr>ref = 1, hook_id = Some ''sys'', name = [''login''], action = Some ''call'',
                cb = cb_return (Str ''early''), phase = Some ''pre''\<rparr>,
               \<lparr>ref = 0, hook_id = Some ''sys'', name = [''login''], action = Some ''call'',
                cb = cb_return (Str ''late''), phase = Some ''post''\<rparr>],
      next_ref = 2\<rparr>"
  by (simp add: sys_post_pre_def eval_defs)

lemma sys_stop_eq:
  "sys_stop =
     \<lparr>qyvent_id = ''sys'', ctx = Map.empty, phases = [''pre'', ''main'', ''post''],
      main = Some ''main'',
      hooks = [\<lparr>ref = 1, hook_id = Some ''sys'', name = [''login''], action = Some ''call'',
                cb = cb_return (Str ''early''), phase = Some ''pre''\<rparr>,
               \<lparr>ref = 2, hook_id = Some ''sys'', name = [''login''], action = Some ''call'',
                cb = cb_stop, phase = Some ''main''\<rparr>,
               \<lparr>ref = 0, hook_id = Some ''sys'', name = [''login''], action = Some ''call'',
                cb = cb_return (Str ''late''), phase = Some ''post''\<rparr>],
      next_ref = 3\<rparr>"
  by (simp add: sys_stop_def sys_post_pre_eq eval_defs)

lemma sys_throw_eq:
  "sys_throw =
     \<lparr>qyvent_id = ''sys'', ctx = Map.empty, phases = [''pre'', ''main'', ''post''],
      main = Some ''main'',
      hooks = [\<lparr>ref = 1, hook_id = Some ''sys'', name = [''login''], action = Some ''call'',
                cb = cb_return (Str ''early''), phase = Some ''pre''\<rparr>,
               \<lparr>ref = 2, hook_id = Some ''sys'', name = [''login''], action = Some ''call'',
                cb = cb_throw (Str ''boom''), phase = Some ''main''\<rparr>,
               \<lparr>ref = 0, hook_id = Some ''sys'', name = [''login''], action = Some ''call'',
                cb = cb_return (Str ''late''), phase = Some ''post''\<rparr>],
      next_ref = 3\<rparr>"
  by (simp add: sys_throw_def sys_post_pre_eq eval_defs)

lemma nodes_star_eq:
  "nodes_star =
     \<lparr>qyvent_id = ''nodes'', ctx = Map.empty, phases = [''main''], main = Some ''main'',
      hooks = [\<lparr>ref = 0, hook_id = Some ''nodes'', name = [''*''], action = Some ''set'',
                cb = cb_return Undefined, phase = Some ''main''\<rparr>],
      next_ref = 1\<rparr>"
  by (simp add: nodes_star_def eval_defs)


lemma ns_a_eq:
  "ns_a =
     \<lparr>qyvent_id = ''ns'', ctx = Map.empty, phases = [''main''], main = Some ''main'',
      hooks = [\<lparr>ref = 0, hook_id = Some ''ns'', name = [''a''], action = Some ''call'',
                cb = cb_return (Str ''a''), phase = Some ''main''\<rparr>],
      next_ref = 1\<rparr>"
  by (simp add: ns_a_def eval_defs)

lemma ns_ab_eq:
  "ns_ab =
     \<lparr>qyvent_id = ''ns'', ctx = Map.empty, phases = [''main''], main = Some ''main'',
      hooks = [\<lparr>ref = 0, hook_id = Some ''ns'', name = [''a''], action = Some ''call'',
                cb = cb_return (Str ''a''), phase = Some ''main''\<rparr>,
               \<lparr>ref = 1, hook_id = Some ''ns'', name = [''b''], action = Some ''call'',
                cb = cb_return (Str ''b''), phase = Some ''main''\<rparr>],
      next_ref = 2\<rparr>"
  by (simp add: ns_ab_def ns_a_eq eval_defs)


lemma ns_args_eq:
  "ns_args =
     \<lparr>qyvent_id = ''ns'', ctx = Map.empty, phases = [''main''], main = Some ''main'',
      hooks = [\<lparr>ref = 0, hook_id = Some ''ns'', name = [''x''], action = Some ''call'',
                cb = cb_set_arg0 (Str ''changed''), phase = Some ''main''\<rparr>,
               \<lparr>ref = 1, hook_id = Some ''ns'', name = [''x''], action = Some ''call'',
                cb = cb_first_arg, phase = Some ''main''\<rparr>],
      next_ref = 2\<rparr>"
  by (simp add: ns_args_def eval_defs)

lemma sys_one_eq:
  "sys_one =
     \<lparr>qyvent_id = ''sys'', ctx = Map.empty, phases = [''pre'', ''main'', ''post''],
      main = Some ''main'',
      hooks = [\<lparr>ref = 1, hook_id = Some ''sys'', name = [''login''], action = Some ''call'',
                cb = cb_return (Str ''early''), phase = Some ''pre''\<rparr>,
               \<lparr>ref = 2, hook_id = Some ''sys'', name = [''login''], action = Some ''call'',
                cb = cb_stop, phase = Some ''main''\<rparr>,
               \<lparr>ref = 3, hook_id = Some ''sys'', name = [], action = None,
                cb = cb_return (Str ''one''), phase = Some ''main''\<rparr>,
               \<lparr>ref = 0, hook_id = Some ''sys'', name = [''login''], action = Some ''call'',
                cb = cb_return (Str ''late''), phase = Some ''post''\<rparr>],
      next_ref = 4\<rparr>"
  by (simp add: sys_one_def sys_stop_eq eval_defs)

lemma sys_one_throw_eq:
  "sys_one_throw =
     \<lparr>qyvent_id = ''sys'', ctx = Map.empty, phases = [''pre'', ''main'', ''post''],
      main = Some ''main'',
      hooks = [\<lparr>ref = 1, hook_id = Some ''sys'', name = [''login''], action = Some ''call'',
                cb = cb_return (Str ''early''), phase = Some ''pre''\<rparr>,
               \<lparr>ref = 2, hook_id = Some ''sys'', name = [''login''], action = Some ''call'',
                cb = cb_stop, phase = Some ''main''\<rparr>,
               \<lparr>ref = 3, hook_id = Some ''sys'', name = [], action = None,
                cb = cb_throw (Str ''boom''), phase = Some ''main''\<rparr>,
               \<lparr>ref = 0, hook_id = Some ''sys'', name = [''login''], action = Some ''call'',
                cb = cb_return (Str ''late''), phase = Some ''post''\<rparr>],
      next_ref = 4\<rparr>"
  by (simp add: sys_one_throw_def sys_stop_eq eval_defs)

subsection \<open>Patterns and matching\<close>

lemma split_dot_not_Nil: "split_dot s \<noteq> []"
  by (induction s) (auto split: list.splits)

lemma parse_id: "fst (parse pattern) = Some (hd (split_dot pattern))"
  using split_dot_not_Nil [of pattern]
  by (cases "split_dot pattern") (simp_all add: parse_def shift_def split: prod.splits)

lemma split_limit_id: "at (split_dot_limit pattern 1) 0 = fst (parse pattern)"
  using split_dot_not_Nil [of pattern]
  by (cases "split_dot pattern") (simp_all add: parse_id at_def split_dot_limit_def)

lemma every_part_iff:
  "every_part parts i pattern \<longleftrightarrow>
     (\<forall>k < length parts. Some (parts ! k) = at pattern (i + k) \<or> parts ! k = ''*'')"
proof (induction parts arbitrary: i)
  case Nil
  show ?case by simp
next
  case (Cons p ps)
  show ?case
    by (simp add: Cons.IH All_less_Suc2)
qed

lemma every_part_same_length:
  assumes "length parts = length pattern"
  shows "every_part parts 0 pattern \<longleftrightarrow>
     (\<forall>k < length parts. parts ! k = ''*'' \<or> parts ! k = pattern ! k)"
  using assms by (auto simp: every_part_iff at_def)

lemma fire_match_iff:
  "fire_match id' action' pattern' h \<longleftrightarrow>
     hook_id h = id' \<and> action h = action' \<and> length (name h) = length pattern' \<and>
     (\<forall>k < length (name h). name h ! k = ''*'' \<or> name h ! k = pattern' ! k)"
  by (auto simp: fire_match_def every_part_same_length)

lemma Qyvent_filter_eq:
  "parse pattern = (id', pattern', action') \<Longrightarrow>
   Qyvent_filter ev pattern = filter (fire_match id' action' pattern') (hooks ev)"
  by (auto simp: Qyvent_filter_def fire_match_def intro!: filter_cong split: if_splits)

subsection \<open>The order of the hook collection\<close>

lemma indexOf_from_absent: "x \<notin> set ys \<Longrightarrow> indexOf_from ys x i = -1"
  by (induction ys arbitrary: i) auto

lemma indexOf_from_present: "x \<in> set ys \<Longrightarrow> i \<le> indexOf_from ys x i"
proof (induction ys arbitrary: i)
  case Nil
  then show ?case by simp
next
  case (Cons y ys)
  show ?case
  proof (cases "y = x")
    case True
    then show ?thesis by simp
  next
    case False
    with Cons.prems have "x \<in> set ys" by simp
    from Cons.IH [OF this, of "i + 1"] False show ?thesis by simp
  qed
qed

lemma phase_index_unknown: "phase h \<notin> Some ` set ps \<Longrightarrow> phase_index ps h = -1"
  by (cases "phase h") (auto simp: phase_index_def indexOf_def indexOf_from_absent image_iff)

lemma phase_index_known: "phase h \<in> Some ` set ps \<Longrightarrow> 0 \<le> phase_index ps h"
  by (auto simp: phase_index_def indexOf_def intro: indexOf_from_present)

lemma Qyvent_hook_phases: "phases (fst (Qyvent_hook ev pattern cb' phase')) = phases ev"
  by (simp add: Qyvent_hook_def Let_def)

lemma Qyvent_hook_hooks:
  "hooks (fst (Qyvent_hook ev pattern cb' phase')) =
     sort_key (phase_index (phases ev)) (hooks ev @ [hookObj ev pattern cb' phase'])"
  by (simp add: Qyvent_hook_def Let_def)

lemma addHook_found:
  assumes "parse pattern = (Some i, name', action')" and "Qyvents i = Some ev"
  shows "addHook Qyvents pattern cb' phase'
       = Inr (Qyvents(i \<mapsto> fst (Qyvent_hook ev pattern cb' phase')),
              snd (Qyvent_hook ev pattern cb' phase'))"
proof -
  have "at (split_dot_limit pattern 1) 0 = Some i"
    using split_limit_id [of pattern] assms(1) by simp
  moreover have "get Qyvents (Some i) = Some ev"
    using assms(2) by (simp add: get_def)
  ultimately show ?thesis
    by (simp add: addHook_def split: prod.splits)
qed

lemma registration_order_Qyvent: "registration_order (Qyvent id' phases' ctx')"
  by (simp add: registration_order_def Qyvent_def split: prod.splits)

lemma hookObj_ref: "ref (hookObj ev pattern cb' phase') = next_ref ev"
  by (simp add: hookObj_def split: prod.splits)

lemma Qyvent_hook_next_ref:
  "next_ref (fst (Qyvent_hook ev pattern cb' phase')) = Suc (next_ref ev)"
  by (simp add: Qyvent_hook_def Let_def)

lemma registration_order_hook:
  assumes "registration_order ev"
  shows "registration_order (fst (Qyvent_hook ev pattern cb' phase'))"
proof -
  let ?h = "hookObj ev pattern cb' phase'"
  let ?key = "phase_index (phases ev)"
  from assms have lt: "\<forall>h \<in> set (hooks ev). ref h < next_ref ev"
    and so: "\<And>k. sorted_wrt (<) (map ref (filter (\<lambda>h. ?key h = k) (hooks ev)))"
    by (simp_all add: registration_order_def)
  have a: "\<forall>h \<in> set (sort_key ?key (hooks ev @ [?h])). ref h < Suc (next_ref ev)"
    using lt by (auto simp: hookObj_ref less_Suc_eq)
  have b: "sorted_wrt (<) (map ref (filter (\<lambda>h. ?key h = k) (sort_key ?key (hooks ev @ [?h]))))"
    for k
  proof -
    have "filter (\<lambda>h. ?key h = k) (sort_key ?key (hooks ev @ [?h]))
            = filter (\<lambda>h. ?key h = k) (hooks ev) @ (if ?key ?h = k then [?h] else [])"
      by (simp add: sort_key_stable)
    then show ?thesis
      using so [of k] lt by (auto simp: sorted_wrt_append hookObj_ref)
  qed
  show ?thesis
    using a b
    by (simp add: registration_order_def Qyvent_hook_hooks Qyvent_hook_phases Qyvent_hook_next_ref)
qed

text \<open>
  C2. After \<^verbatim>\<open>Qyvent.hook\<close> the hook collection is sorted by ascending index of the
  hooks' phases in the namespace's phase list (which the call does not change); a phase
  that is not in the list has index \<open>-1\<close>, below the index of every phase that is; and
  the hooks of any one phase index are the hooks of that index that were stored before,
  in their former order, followed by the new hook if it has that index. So a new
  namespace is in registration order, and \<^verbatim>\<open>Qyvent.hook\<close> keeps a namespace in
  registration order. \<^verbatim>\<open>addHook\<close> on a registered namespace is \<^verbatim>\<open>Qyvent.hook\<close> on
  that namespace.
\<close>

theorem hook_sorted_stable:
  "phases (fst (Qyvent_hook ev pattern cb' phase')) = phases ev
   \<and> sorted (map (phase_index (phases ev)) (hooks (fst (Qyvent_hook ev pattern cb' phase'))))
   \<and> (\<forall>k. filter (\<lambda>h. phase_index (phases ev) h = k)
             (hooks (fst (Qyvent_hook ev pattern cb' phase')))
          = filter (\<lambda>h. phase_index (phases ev) h = k)
             (hooks ev @ [hookObj ev pattern cb' phase']))
   \<and> (\<forall>h. (phase h \<notin> Some ` set (phases ev) \<longrightarrow> phase_index (phases ev) h = -1)
          \<and> (phase h \<in> Some ` set (phases ev) \<longrightarrow> 0 \<le> phase_index (phases ev) h))
   \<and> registration_order (Qyvent id' phases' ctx')
   \<and> (registration_order ev \<longrightarrow> registration_order (fst (Qyvent_hook ev pattern cb' phase')))
   \<and> (parse pattern = (Some i, name', action') \<and> Qyvents i = Some ev \<longrightarrow>
        addHook Qyvents pattern cb' phase'
          = Inr (Qyvents(i \<mapsto> fst (Qyvent_hook ev pattern cb' phase')),
                 snd (Qyvent_hook ev pattern cb' phase')))"
  by (simp add: Qyvent_hook_phases Qyvent_hook_hooks sort_key_stable phase_index_unknown
      phase_index_known registration_order_Qyvent registration_order_hook addHook_found
      del: filter_append)

theorem hook_sorted_stable_witness:
  "parse ''sys.login.call'' = (Some ''sys'', [''login''], Some ''call'')
   \<and> [''sys'' \<mapsto> sys_post_pre] ''sys'' = Some sys_post_pre
   \<and> addHook [''sys'' \<mapsto> sys_post_pre] ''sys.login.call'' cb_stop None
       = Inr ([''sys'' \<mapsto> fst (Qyvent_hook sys_post_pre ''sys.login.call'' cb_stop None)], 2)
   \<and> registration_order sys_post_pre
   \<and> registration_order (fst (Qyvent_hook sys_post_pre ''sys.login.call'' cb_stop None))
   \<and> map phase (hooks (fst (Qyvent_hook sys_post_pre ''sys.login.call'' cb_stop None)))
     = [Some ''pre'', Some ''main'', Some ''post'']
   \<and> map ref (hooks (fst (Qyvent_hook sys_post_pre ''sys.login.call'' cb_stop None))) = [1, 2, 0]
   \<and> sorted (map (phase_index (phases sys_post_pre))
        (hooks (fst (Qyvent_hook sys_post_pre ''sys.login.call'' cb_stop None))))
   \<and> phase (hookObj sys_post_pre ''sys.login.call'' cb_stop None) \<in> Some ` set (phases sys_post_pre)
   \<and> 0 \<le> phase_index (phases sys_post_pre) (hookObj sys_post_pre ''sys.login.call'' cb_stop None)
   \<and> phase (hookObj sys_post_pre ''sys.login.call'' cb_stop (Some ''audit''))
        \<notin> Some ` set (phases sys_post_pre)
   \<and> phase_index (phases sys_post_pre)
        (hookObj sys_post_pre ''sys.login.call'' cb_stop (Some ''audit'')) = -1
   \<and> map phase (hooks (fst (Qyvent_hook sys_post_pre ''sys.login.call'' cb_stop (Some ''audit''))))
     = [Some ''audit'', Some ''pre'', Some ''post'']"
proof -
  note t = hook_sorted_stable [where ev = sys_post_pre and pattern = "''sys.login.call''"
      and cb' = cb_stop and phase' = None and i = "''sys''" and name' = "[''login'']"
      and action' = "Some ''call''" and Qyvents = "[''sys'' \<mapsto> sys_post_pre]"]
  have p: "parse ''sys.login.call'' = (Some ''sys'', [''login''], Some ''call'')"
    by (simp add: parse_def shift_def pop_def)
  have g: "[''sys'' \<mapsto> sys_post_pre] ''sys'' = Some sys_post_pre"
    by simp
  from t p g have "addHook [''sys'' \<mapsto> sys_post_pre] ''sys.login.call'' cb_stop None
       = Inr ([''sys'' \<mapsto> sys_post_pre,
               ''sys'' \<mapsto> fst (Qyvent_hook sys_post_pre ''sys.login.call'' cb_stop None)],
              snd (Qyvent_hook sys_post_pre ''sys.login.call'' cb_stop None))"
    by blast
  then have a: "addHook [''sys'' \<mapsto> sys_post_pre] ''sys.login.call'' cb_stop None
       = Inr ([''sys'' \<mapsto> fst (Qyvent_hook sys_post_pre ''sys.login.call'' cb_stop None)],
              snd (Qyvent_hook sys_post_pre ''sys.login.call'' cb_stop None))"
    by simp
  have "snd (Qyvent_hook sys_post_pre ''sys.login.call'' cb_stop None) = 2"
    by (simp add: sys_post_pre_eq eval_defs)
  with a have a': "addHook [''sys'' \<mapsto> sys_post_pre] ''sys.login.call'' cb_stop None
       = Inr ([''sys'' \<mapsto> fst (Qyvent_hook sys_post_pre ''sys.login.call'' cb_stop None)], 2)"
    by simp
  have r: "registration_order sys_post_pre"
    unfolding sys_post_pre_def
    by (intro registration_order_hook registration_order_Qyvent)
  from t r have r': "registration_order (fst (Qyvent_hook sys_post_pre ''sys.login.call'' cb_stop None))"
    by blast
  have e: "map phase (hooks (fst (Qyvent_hook sys_post_pre ''sys.login.call'' cb_stop None)))
     = [Some ''pre'', Some ''main'', Some ''post'']
   \<and> map ref (hooks (fst (Qyvent_hook sys_post_pre ''sys.login.call'' cb_stop None))) = [1, 2, 0]
   \<and> sorted (map (phase_index (phases sys_post_pre))
        (hooks (fst (Qyvent_hook sys_post_pre ''sys.login.call'' cb_stop None))))
   \<and> phase (hookObj sys_post_pre ''sys.login.call'' cb_stop None) \<in> Some ` set (phases sys_post_pre)
   \<and> 0 \<le> phase_index (phases sys_post_pre) (hookObj sys_post_pre ''sys.login.call'' cb_stop None)
   \<and> phase (hookObj sys_post_pre ''sys.login.call'' cb_stop (Some ''audit''))
        \<notin> Some ` set (phases sys_post_pre)
   \<and> phase_index (phases sys_post_pre)
        (hookObj sys_post_pre ''sys.login.call'' cb_stop (Some ''audit'')) = -1
   \<and> map phase (hooks (fst (Qyvent_hook sys_post_pre ''sys.login.call'' cb_stop (Some ''audit''))))
     = [Some ''audit'', Some ''pre'', Some ''post'']"
    using t by (simp add: sys_post_pre_eq eval_defs)
  from p g a' r r' e show ?thesis by blast
qed

subsection \<open>The default phase\<close>

lemma map_phases_eq:
  "map_phases ps m =
     (map (\<lambda>p. if endsWith_star p then slice_0_m1 p else p) ps,
      case filter endsWith_star ps of [] \<Rightarrow> m | q # qs \<Rightarrow> Some (slice_0_m1 (last (q # qs))))"
proof (induction ps arbitrary: m)
  case Nil
  show ?case by simp
next
  case (Cons p ps)
  show ?case
    by (cases "filter endsWith_star ps") (simp_all add: Cons.IH)
qed

text \<open>
  C8, as the code has it. The constructor stores every phase name without its trailing
  \<^verbatim>\<open>*\<close> marker, and the default phase is the stripped name of the last phase that
  carries the marker. When no phase carries it the default phase stays \<^verbatim>\<open>undefined\<close>:
  the first phase is not taken instead.
\<close>

theorem Qyvent_default_phase:
  "phases (Qyvent id' (Some ps) ctx') = map (\<lambda>p. if endsWith_star p then slice_0_m1 p else p) ps
   \<and> main (Qyvent id' (Some ps) ctx') =
       (case filter endsWith_star ps of [] \<Rightarrow> None
        | q # qs \<Rightarrow> Some (slice_0_m1 (last (q # qs))))
   \<and> phases (Qyvent id' None ctx') = [''main'']
   \<and> main (Qyvent id' None ctx') = Some ''main''"
  by (simp add: Qyvent_def map_phases_eq endsWith_star_def slice_0_m1_def)

theorem Qyvent_default_phase_witness:
  "main (Qyvent ''sys'' (Some [''pre'', ''main*'', ''post'']) None) = Some ''main''
   \<and> phases (Qyvent ''sys'' (Some [''pre'', ''main*'', ''post'']) None) = [''pre'', ''main'', ''post'']"
  using Qyvent_default_phase [of "''sys''" "[''pre'', ''main*'', ''post'']" None]
  by (simp add: endsWith_star_def slice_0_m1_def)

theorem no_marker_no_default:
  "main (Qyvent ''sys'' (Some [''pre'', ''post'']) None) = None"
  by (simp add: Qyvent_def endsWith_star_def)

subsection \<open>Unregistering\<close>

lemma indexOf_hook_absent: "r \<notin> ref ` set hs \<Longrightarrow> indexOf_hook hs r i = -1"
  by (induction hs arbitrary: i) auto

lemma indexOf_hook_present:
  "r \<in> ref ` set hs \<Longrightarrow>
   indexOf_hook hs r i = i + int (length (takeWhile (\<lambda>h. ref h \<noteq> r) hs))"
proof (induction hs arbitrary: i)
  case Nil
  then show ?case by simp
next
  case (Cons h hs)
  show ?case
  proof (cases "ref h = r")
    case True
    then show ?thesis by simp
  next
    case False
    with Cons.prems have "r \<in> ref ` set hs" by auto
    from Cons.IH [OF this, of "i + 1"] False show ?thesis by simp
  qed
qed

lemma unregister_hooks:
  "hooks (unregister ev r) =
     (if r \<in> ref ` set (hooks ev) then takeWhile (\<lambda>h. ref h \<noteq> r) (hooks ev)
      else butlast (hooks ev))"
proof (cases "r \<in> ref ` set (hooks ev)")
  case True
  have "take (length (takeWhile (\<lambda>h. ref h \<noteq> r) (hooks ev))) (hooks ev)
          = takeWhile (\<lambda>h. ref h \<noteq> r) (hooks ev)"
    by (simp add: takeWhile_eq_take [symmetric])
  moreover have "length (takeWhile (\<lambda>h. ref h \<noteq> r) (hooks ev)) \<le> length (hooks ev)"
    by (rule length_takeWhile_le)
  ultimately show ?thesis
    using True by (simp add: unregister_def splice_def indexOf_hook_present Let_def min_def)
next
  case False
  then show ?thesis
    by (simp add: unregister_def splice_def indexOf_hook_absent Let_def butlast_conv_take
        max_def nat_diff_distrib')
qed

text \<open>
  C4 on the code. The handle does not remove one hook: when the hook is still stored it
  removes that hook and every hook behind it, and when it is no longer stored it
  removes the last hook of the collection. With hooks registered at \<^verbatim>\<open>'ns.a.call'\<close>
  and then \<^verbatim>\<open>'ns.b.call'\<close>, the handle of the first one empties the collection, and
  invoking the handle of the second one twice does the same.
\<close>

theorem unregister_truncates:
  "hooks (unregister ev r) =
     (if r \<in> ref ` set (hooks ev) then takeWhile (\<lambda>h. ref h \<noteq> r) (hooks ev)
      else butlast (hooks ev))
   \<and> map name (hooks ns_ab) = [[''a''], [''b'']]
   \<and> snd (Qyvent_hook (Qyvent ''ns'' None None) ''ns.a.call'' (cb_return (Str ''a'')) None) = 0
   \<and> snd (Qyvent_hook ns_a ''ns.b.call'' (cb_return (Str ''b'')) None) = 1
   \<and> hooks (unregister ns_ab 0) = []
   \<and> hooks (unregister (unregister ns_ab 1) 1) = []"
proof -
  have "hooks (unregister ns_ab 0) = []"
    by (simp add: ns_ab_eq unregister_def splice_def)
  moreover have "hooks (unregister (unregister ns_ab 1) 1) = []"
    by (simp add: ns_ab_eq unregister_def splice_def)
  moreover have "map name (hooks ns_ab) = [[''a''], [''b'']]"
    by (simp add: ns_ab_eq)
  moreover have "snd (Qyvent_hook (Qyvent ''ns'' None None) ''ns.a.call'' (cb_return (Str ''a'')) None) = 0"
    by (simp add: eval_defs)
  moreover have "snd (Qyvent_hook ns_a ''ns.b.call'' (cb_return (Str ''b'')) None) = 1"
    by (simp add: ns_a_eq eval_defs)
  ultimately show ?thesis
    using unregister_hooks [of ev r] by simp
qed

subsection \<open>The loop of \<^verbatim>\<open>fire\<close>\<close>

lemma state_after_Nil [simp]: "state_after [] s = s"
  by (simp add: state_after_def)

lemma state_after_Cons [simp]: "state_after (h # hs) s = state_after hs (after_hook h s)"
  by (simp add: state_after_def)

text \<open>A sequence that passes is called as a whole, and the loop goes on behind it.\<close>

lemma run_hooks_passes:
  "passes pre (c, a) \<Longrightarrow>
   run_hooks (pre @ rest) c a =
     (pre @ fst (run_hooks rest (fst (state_after pre (c, a))) (snd (state_after pre (c, a)))),
      snd (run_hooks rest (fst (state_after pre (c, a))) (snd (state_after pre (c, a)))))"
proof (induction pre arbitrary: c a)
  case Nil
  show ?case by simp
next
  case (Cons h pre)
  from Cons.prems obtain r c1 a1 where r: "cb h c a = Resolved (r, c1, a1)"
    by (cases "cb h c a") auto
  define c2 where "c2 = (if r \<noteq> Undefined then c1\<lparr>return := r\<rparr> else c1)"
  from r have ah: "after_hook h (c, a) = (c2, a1)"
    by (simp add: after_hook_def c2_def)
  from Cons.prems ah have ns: "\<not> truthy (stopped c2)" and p: "passes pre (c2, a1)"
    by simp_all
  show ?case
    using Cons.IH [OF p] ns r ah by (simp add: c2_def Let_def split: prod.splits)
qed

lemma run_hooks_no_calls: "run_hooks hs c a = ([], out) \<Longrightarrow> hs = []"
  by (cases hs) (auto simp: Let_def split: outcome.splits prod.splits if_splits)

text \<open>The calls are an initial part of the hooks that the loop is given.\<close>

lemma run_hooks_prefix: "\<exists>rest. hs = fst (run_hooks hs c a) @ rest"
proof (induction hs arbitrary: c a)
  case Nil
  show ?case by simp
next
  case (Cons h hs)
  show ?case
  proof (cases "cb h c a")
    case (Resolved x)
    obtain r c1 a1 where x: "x = (r, c1, a1)" by (cases x)
    define c2 where "c2 = (if r \<noteq> Undefined then c1\<lparr>return := r\<rparr> else c1)"
    from Cons.IH [of c2 a1] obtain rest where "hs = fst (run_hooks hs c2 a1) @ rest"
      by blast
    then show ?thesis
      using Resolved x by (auto simp: c2_def Let_def split: prod.splits)
  next
    case (Rejected e)
    then show ?thesis by simp
  next
    case Pending
    then show ?thesis by simp
  qed
qed

text \<open>What a run that ends with a context looked like.\<close>

lemma run_hooks_Resolved:
  "run_hooks hs c a = (calls, Resolved c') \<Longrightarrow>
     (\<exists>rest. hs = calls @ rest \<and> (rest \<noteq> [] \<longrightarrow> calls \<noteq> [] \<and> truthy (stopped c')))
     \<and> passes (butlast calls) (c, a)
     \<and> (calls \<noteq> [] \<longrightarrow>
          resolves (cb (last calls) (fst (state_after (butlast calls) (c, a)))
            (snd (state_after (butlast calls) (c, a)))))
     \<and> c' = fst (state_after calls (c, a))"
proof (induction hs arbitrary: c a calls)
  case Nil
  then show ?case by simp
next
  case (Cons h hs)
  show ?case
  proof (cases "cb h c a")
    case (Resolved x)
    obtain r c1 a1 where x: "x = (r, c1, a1)" by (cases x)
    define c2 where "c2 = (if r \<noteq> Undefined then c1\<lparr>return := r\<rparr> else c1)"
    have ah: "after_hook h (c, a) = (c2, a1)"
      by (simp add: after_hook_def Resolved x c2_def)
    show ?thesis
    proof (cases "truthy (stopped c2)")
      case True
      with Cons.prems Resolved x have "calls = [h]" "c' = c2"
        by (simp_all add: c2_def Let_def)
      then show ?thesis using True ah Resolved by simp
    next
      case False
      obtain calls' out where ro: "run_hooks hs c2 a1 = (calls', out)"
        by (cases "run_hooks hs c2 a1")
      with Cons.prems Resolved x False have eq: "calls = h # calls'" "out = Resolved c'"
        by (simp_all add: c2_def Let_def)
      from Cons.IH [OF ro [unfolded eq(2)]] obtain rest where
        ih: "hs = calls' @ rest" "rest \<noteq> [] \<longrightarrow> calls' \<noteq> [] \<and> truthy (stopped c')"
          "passes (butlast calls') (c2, a1)"
          "calls' \<noteq> [] \<longrightarrow>
             resolves (cb (last calls') (fst (state_after (butlast calls') (c2, a1)))
               (snd (state_after (butlast calls') (c2, a1))))"
          "c' = fst (state_after calls' (c2, a1))"
        by blast
      show ?thesis
      proof (cases "calls' = []")
        case True
        with ro have "hs = []" by (simp add: run_hooks_no_calls)
        with True ih have "rest = []" "c' = c2" by simp_all
        then show ?thesis
          using True eq ah Resolved \<open>hs = []\<close> by simp
      next
        case nonempty: False
        then show ?thesis
          using ih eq ah Resolved False by auto
      qed
    qed
  next
    case (Rejected e)
    with Cons.prems show ?thesis by simp
  next
    case Pending
    with Cons.prems show ?thesis by simp
  qed
qed

lemma run_hooks_total:
  "\<forall>h \<in> set hs. \<forall>c a. resolves (cb h c a) \<Longrightarrow>
   \<exists>calls c'. run_hooks hs c a = (calls, Resolved c')"
proof (induction hs arbitrary: c a)
  case Nil
  show ?case by simp
next
  case (Cons h hs)
  from Cons.prems have "resolves (cb h c a)" by simp
  then obtain r c1 a1 where r: "cb h c a = Resolved (r, c1, a1)"
    by (cases "cb h c a") auto
  define c2 where "c2 = (if r \<noteq> Undefined then c1\<lparr>return := r\<rparr> else c1)"
  from Cons.prems have "\<forall>h \<in> set hs. \<forall>c a. resolves (cb h c a)" by simp
  from Cons.IH [OF this, of c2 a1] obtain calls c' where
    "run_hooks hs c2 a1 = (calls, Resolved c')"
    by blast
  then show ?case using r by (simp add: c2_def Let_def)
qed

subsection \<open>\<^verbatim>\<open>fire\<close> as a whole\<close>

lemma Qyvr_fire_eq: "Qyvr_fire Qyvents pattern args' = fire Qyvents pattern args'"
proof -
  obtain id' pattern' action' where p: "parse pattern = (id', pattern', action')"
    by (cases "parse pattern")
  have i: "at (split_dot_limit pattern 1) 0 = id'"
    using split_limit_id [of pattern] p by simp
  show ?thesis
    using i by (simp add: Qyvr_fire_def fire_def p Qyvent_filter_eq [OF p] split: option.splits)
qed

lemma fire_found:
  "parse pattern = (id', pattern', action') \<Longrightarrow> get Qyvents id' = Some ev \<Longrightarrow>
   fire Qyvents pattern args' =
     (fst (run_hooks (filter (fire_match id' action' pattern') (hooks ev)) (new_ctx ev) args'),
      return_of (snd (run_hooks (filter (fire_match id' action' pattern') (hooks ev))
         (new_ctx ev) args')))"
  by (simp add: fire_def split: prod.splits)

text \<open>
  C1. The hooks that \<^verbatim>\<open>fire\<close> selects from the namespace are exactly the stored hooks
  with the fired namespace id, the fired action, as many name parts as the fired
  pattern, and at every position either \<^verbatim>\<open>*\<close> or the fired name part;
  \<^verbatim>\<open>Qyvent.filter\<close> of the class-based variant selects the same hooks. In particular
  a hook with name parts \<^verbatim>\<open>['*']\<close> matches exactly the fired patterns with one name
  part and the same namespace id and action. \<^verbatim>\<open>fire\<close> (and \<^verbatim>\<open>Qyvr.fire\<close>, which
  behaves as \<^verbatim>\<open>fire\<close> does) parses the fired pattern, looks its namespace up and runs
  its loop over this selection: the hooks it calls are an initial part of the selection,
  in the stored order, and they are the whole selection when every selected hook
  resolves and leaves \<^verbatim>\<open>ctx.stopped\<close> falsy.
\<close>

theorem fire_selects_iff:
  "(h \<in> set (filter (fire_match id' action' pattern') (hooks ev)) \<longleftrightarrow>
      h \<in> set (hooks ev) \<and> hook_id h = id' \<and> action h = action' \<and>
      length (name h) = length pattern' \<and>
      (\<forall>k < length (name h). name h ! k = ''*'' \<or> name h ! k = pattern' ! k))
   \<and> Qyvent_filter ev pattern =
       filter (fire_match (fst (parse pattern)) (snd (snd (parse pattern)))
         (fst (snd (parse pattern)))) (hooks ev)
   \<and> (name h = [''*''] \<longrightarrow>
        (fire_match id' action' pattern' h \<longleftrightarrow>
           hook_id h = id' \<and> action h = action' \<and> length pattern' = 1))
   \<and> (parse pattern = (id', pattern', action') \<and> get Qyvents id' = Some ev \<longrightarrow>
        fire Qyvents pattern args' =
          (fst (run_hooks (filter (fire_match id' action' pattern') (hooks ev))
             (new_ctx ev) args'),
           return_of (snd (run_hooks (filter (fire_match id' action' pattern') (hooks ev))
             (new_ctx ev) args')))
        \<and> Qyvr_fire Qyvents pattern args' = fire Qyvents pattern args'
        \<and> (\<exists>rest. filter (fire_match id' action' pattern') (hooks ev)
              = fst (fire Qyvents pattern args') @ rest)
        \<and> (passes (filter (fire_match id' action' pattern') (hooks ev)) (new_ctx ev, args') \<longrightarrow>
             fst (fire Qyvents pattern args') = filter (fire_match id' action' pattern') (hooks ev)))"
proof -
  let ?F = "filter (fire_match id' action' pattern') (hooks ev)"
  have a: "Qyvent_filter ev pattern =
       filter (fire_match (fst (parse pattern)) (snd (snd (parse pattern)))
         (fst (snd (parse pattern)))) (hooks ev)"
    by (rule Qyvent_filter_eq) simp
  have b: "name h = [''*''] \<longrightarrow>
        (fire_match id' action' pattern' h \<longleftrightarrow>
           hook_id h = id' \<and> action h = action' \<and> length pattern' = 1)"
    by (auto simp: fire_match_iff)
  have c: "parse pattern = (id', pattern', action') \<and> get Qyvents id' = Some ev \<longrightarrow>
        fire Qyvents pattern args' =
          (fst (run_hooks ?F (new_ctx ev) args'), return_of (snd (run_hooks ?F (new_ctx ev) args')))
        \<and> Qyvr_fire Qyvents pattern args' = fire Qyvents pattern args'
        \<and> (\<exists>rest. ?F = fst (fire Qyvents pattern args') @ rest)
        \<and> (passes ?F (new_ctx ev, args') \<longrightarrow> fst (fire Qyvents pattern args') = ?F)"
  proof
    assume h: "parse pattern = (id', pattern', action') \<and> get Qyvents id' = Some ev"
    then have f: "fire Qyvents pattern args' =
          (fst (run_hooks ?F (new_ctx ev) args'), return_of (snd (run_hooks ?F (new_ctx ev) args')))"
      by (simp add: fire_found)
    have pre: "\<exists>rest. ?F = fst (fire Qyvents pattern args') @ rest"
      using run_hooks_prefix [of ?F "new_ctx ev" args'] by (simp add: f)
    have all: "passes ?F (new_ctx ev, args') \<longrightarrow> fst (fire Qyvents pattern args') = ?F"
    proof
      assume "passes ?F (new_ctx ev, args')"
      from run_hooks_passes [OF this, of "[]"] show "fst (fire Qyvents pattern args') = ?F"
        by (simp add: f)
    qed
    from f pre all show "fire Qyvents pattern args' =
          (fst (run_hooks ?F (new_ctx ev) args'), return_of (snd (run_hooks ?F (new_ctx ev) args')))
        \<and> Qyvr_fire Qyvents pattern args' = fire Qyvents pattern args'
        \<and> (\<exists>rest. ?F = fst (fire Qyvents pattern args') @ rest)
        \<and> (passes ?F (new_ctx ev, args') \<longrightarrow> fst (fire Qyvents pattern args') = ?F)"
      by (simp add: Qyvr_fire_eq)
  qed
  have d: "h \<in> set ?F \<longleftrightarrow>
      h \<in> set (hooks ev) \<and> hook_id h = id' \<and> action h = action' \<and>
      length (name h) = length pattern' \<and>
      (\<forall>k < length (name h). name h ! k = ''*'' \<or> name h ! k = pattern' ! k)"
    by (simp add: fire_match_iff)
  from d a b c show ?thesis by blast
qed

theorem fire_selects_iff_witness:
  "name (hd (hooks nodes_star)) = [''*'']
   \<and> hd (hooks nodes_star)
       \<in> set (filter (fire_match (Some ''nodes'') (Some ''set'') [''node1'']) (hooks nodes_star))
   \<and> Qyvent_filter nodes_star ''nodes.node1.set'' = hooks nodes_star
   \<and> fire_match (Some ''nodes'') (Some ''set'') [''node1''] (hd (hooks nodes_star))
   \<and> \<not> fire_match (Some ''nodes'') (Some ''set'') [] (hd (hooks nodes_star))
   \<and> \<not> fire_match (Some ''nodes'') (Some ''set'') [''node1'', ''status''] (hd (hooks nodes_star))
   \<and> parse ''nodes.node1.set'' = (Some ''nodes'', [''node1''], Some ''set'')
   \<and> get [''nodes'' \<mapsto> nodes_star] (Some ''nodes'') = Some nodes_star
   \<and> passes (filter (fire_match (Some ''nodes'') (Some ''set'') [''node1'']) (hooks nodes_star))
        (new_ctx nodes_star, [])
   \<and> fire [''nodes'' \<mapsto> nodes_star] ''nodes.node1.set'' [] = (hooks nodes_star, Resolved Undefined)
   \<and> Qyvr_fire [''nodes'' \<mapsto> nodes_star] ''nodes.node1.set'' []
       = (hooks nodes_star, Resolved Undefined)
   \<and> fire [''nodes'' \<mapsto> nodes_star] ''nodes.node1.status.set'' [] = ([], Resolved Undefined)"
proof -
  note t1 = fire_selects_iff [where h = "hd (hooks nodes_star)" and id' = "Some ''nodes''"
      and action' = "Some ''set''" and pattern' = "[''node1'']" and ev = nodes_star
      and pattern = "''nodes.node1.set''" and Qyvents = "[''nodes'' \<mapsto> nodes_star]"
      and args' = "[]"]
  note t2 = fire_selects_iff [where h = "hd (hooks nodes_star)" and id' = "Some ''nodes''"
      and action' = "Some ''set''" and pattern' = "[]" and ev = nodes_star
      and pattern = "''nodes.set''" and Qyvents = "[''nodes'' \<mapsto> nodes_star]"
      and args' = "[]"]
  note t3 = fire_selects_iff [where h = "hd (hooks nodes_star)" and id' = "Some ''nodes''"
      and action' = "Some ''set''" and pattern' = "[''node1'', ''status'']" and ev = nodes_star
      and pattern = "''nodes.node1.status.set''" and Qyvents = "[''nodes'' \<mapsto> nodes_star]"
      and args' = "[]"]
  show ?thesis
    using t1 t2 t3
    by (simp add: nodes_star_eq fire_eval Qyvr_fire_eq)
qed

text \<open>
  C7. When the namespace id of the pattern (its first segment) is no key of the
  registry, \<^verbatim>\<open>fire\<close> makes no call and its promise rejects, in both variants, and
  \<^verbatim>\<open>addHook\<close> throws. The error is the \<^verbatim>\<open>TypeError\<close> of reading a property of the
  \<^verbatim>\<open>undefined\<close> that the lookup returned.
\<close>

theorem fire_unknown_namespace:
  assumes "parse pattern = (Some i, pattern', action')" and "Qyvents i = None"
  shows "fire Qyvents pattern args' = ([], Rejected TypeError)
       \<and> Qyvr_fire Qyvents pattern args' = ([], Rejected TypeError)
       \<and> addHook Qyvents pattern cb' phase' = Inl TypeError"
proof -
  have g: "get Qyvents (Some i) = None" using assms(2) by (simp add: get_def)
  have f: "fire Qyvents pattern args' = ([], Rejected TypeError)"
    by (simp add: fire_def assms(1) g)
  have "at (split_dot_limit pattern 1) 0 = Some i"
    using split_limit_id [of pattern] assms(1) by simp
  then have "addHook Qyvents pattern cb' phase' = Inl TypeError"
    by (simp add: addHook_def g)
  with f show ?thesis by (simp add: Qyvr_fire_eq)
qed

theorem fire_unknown_namespace_witness:
  "parse ''unknown_ns.a.b'' = (Some ''unknown_ns'', [''a''], Some ''b'')
   \<and> [''sys'' \<mapsto> sys_stop] ''unknown_ns'' = None
   \<and> fire [''sys'' \<mapsto> sys_stop] ''unknown_ns.a.b'' [] = ([], Rejected TypeError)
   \<and> Qyvr_fire [''sys'' \<mapsto> sys_stop] ''unknown_ns.a.b'' [] = ([], Rejected TypeError)
   \<and> addHook [''sys'' \<mapsto> sys_stop] ''unknown_ns.a.b'' cb_stop None = Inl TypeError"
proof -
  have p: "parse ''unknown_ns.a.b'' = (Some ''unknown_ns'', [''a''], Some ''b'')"
    by (simp add: parse_def shift_def pop_def)
  have n: "[''sys'' \<mapsto> sys_stop] ''unknown_ns'' = None"
    by simp
  show ?thesis
    using p n
      fire_unknown_namespace [of "''unknown_ns.a.b''" "''unknown_ns''" "[''a'']" "Some ''b''"
        "[''sys'' \<mapsto> sys_stop]" "[]" cb_stop None, OF p n]
    by simp
qed

text \<open>
  C3. Let \<^verbatim>\<open>fire\<close> find the namespace and resolve with \<open>v\<close> after the calls \<open>calls\<close>.
  Then the calls are an initial part of the matched hooks, in their order; every call but
  the last resolved and left \<^verbatim>\<open>ctx.stopped\<close> falsy, and the last call resolved; matched
  hooks are left uncalled only when the last call left \<^verbatim>\<open>ctx.stopped\<close> truthy; and \<open>v\<close>
  is the return slot after the calls, where each awaited result other than
  \<^verbatim>\<open>undefined\<close> has overwritten the slot (also the result of the call that stopped).
  Each call gets the context and the rest array as the calls before it left them. When
  every callback of the namespace resolves, \<^verbatim>\<open>fire\<close> resolves. The class-based
  \<^verbatim>\<open>Qyvr.fire\<close> behaves as \<^verbatim>\<open>fire\<close> does.
\<close>

theorem fire_resolves_return_slot:
  assumes "parse pattern = (id', pattern', action')" and "get Qyvents id' = Some ev"
  shows "(fire Qyvents pattern args' = (calls, Resolved v) \<longrightarrow>
           (\<exists>rest. filter (fire_match id' action' pattern') (hooks ev) = calls @ rest
              \<and> (rest \<noteq> [] \<longrightarrow>
                   calls \<noteq> [] \<and> truthy (stopped (fst (state_after calls (new_ctx ev, args'))))))
           \<and> passes (butlast calls) (new_ctx ev, args')
           \<and> (calls \<noteq> [] \<longrightarrow>
                resolves (cb (last calls) (fst (state_after (butlast calls) (new_ctx ev, args')))
                  (snd (state_after (butlast calls) (new_ctx ev, args')))))
           \<and> v = return (fst (state_after calls (new_ctx ev, args'))))
       \<and> ((\<forall>h \<in> set (hooks ev). \<forall>c a. resolves (cb h c a)) \<longrightarrow>
            (\<exists>calls v. fire Qyvents pattern args' = (calls, Resolved v)))
       \<and> Qyvr_fire Qyvents pattern args' = fire Qyvents pattern args'"
proof -
  let ?hs = "filter (fire_match id' action' pattern') (hooks ev)"
  let ?s0 = "(new_ctx ev, args')"
  note f = fire_found [OF assms, of args']
  have a: "fire Qyvents pattern args' = (calls, Resolved v) \<longrightarrow>
           (\<exists>rest. ?hs = calls @ rest
              \<and> (rest \<noteq> [] \<longrightarrow> calls \<noteq> [] \<and> truthy (stopped (fst (state_after calls ?s0)))))
           \<and> passes (butlast calls) ?s0
           \<and> (calls \<noteq> [] \<longrightarrow>
                resolves (cb (last calls) (fst (state_after (butlast calls) ?s0))
                  (snd (state_after (butlast calls) ?s0))))
           \<and> v = return (fst (state_after calls ?s0))"
  proof
    assume r: "fire Qyvents pattern args' = (calls, Resolved v)"
    obtain cs out where ro: "run_hooks ?hs (new_ctx ev) args' = (cs, out)"
      by (cases "run_hooks ?hs (new_ctx ev) args'")
    with r f have cs: "cs = calls" and out: "return_of out = Resolved v" by simp_all
    from out obtain c' where c': "out = Resolved c'" "return c' = v"
      by (cases out) auto
    from run_hooks_Resolved [OF ro [unfolded cs c'(1)]] c'(2)
    show "(\<exists>rest. ?hs = calls @ rest
              \<and> (rest \<noteq> [] \<longrightarrow> calls \<noteq> [] \<and> truthy (stopped (fst (state_after calls ?s0)))))
           \<and> passes (butlast calls) ?s0
           \<and> (calls \<noteq> [] \<longrightarrow>
                resolves (cb (last calls) (fst (state_after (butlast calls) ?s0))
                  (snd (state_after (butlast calls) ?s0))))
           \<and> v = return (fst (state_after calls ?s0))"
      by auto
  qed
  have b: "(\<forall>h \<in> set (hooks ev). \<forall>c a. resolves (cb h c a)) \<longrightarrow>
            (\<exists>calls v. fire Qyvents pattern args' = (calls, Resolved v))"
  proof
    assume "\<forall>h \<in> set (hooks ev). \<forall>c a. resolves (cb h c a)"
    then have "\<forall>h \<in> set ?hs. \<forall>c a. resolves (cb h c a)" by simp
    from run_hooks_total [OF this, of "new_ctx ev" args'] obtain cs c' where
      "run_hooks ?hs (new_ctx ev) args' = (cs, Resolved c')" by blast
    with f show "\<exists>calls v. fire Qyvents pattern args' = (calls, Resolved v)" by simp
  qed
  from a b show ?thesis by (simp add: Qyvr_fire_eq)
qed

theorem fire_resolves_return_slot_witness:
  "fire [''sys'' \<mapsto> sys_stop] ''sys.login.call'' [] =
     (take 2 (hooks sys_stop), Resolved (Str ''early''))
   \<and> map cb (hooks sys_stop) = [cb_return (Str ''early''), cb_stop, cb_return (Str ''late'')]
   \<and> filter (fire_match (Some ''sys'') (Some ''call'') [''login'']) (hooks sys_stop)
       = take 2 (hooks sys_stop) @ drop 2 (hooks sys_stop)
   \<and> drop 2 (hooks sys_stop) \<noteq> []
   \<and> truthy (stopped (fst (state_after (take 2 (hooks sys_stop)) (new_ctx sys_stop, []))))
   \<and> passes (butlast (take 2 (hooks sys_stop))) (new_ctx sys_stop, [])
   \<and> resolves (cb (last (take 2 (hooks sys_stop)))
        (fst (state_after (butlast (take 2 (hooks sys_stop))) (new_ctx sys_stop, [])))
        (snd (state_after (butlast (take 2 (hooks sys_stop))) (new_ctx sys_stop, []))))
   \<and> list_all (\<lambda>h. \<forall>c a. resolves (cb h c a)) (hooks sys_stop)
   \<and> return (fst (state_after (take 2 (hooks sys_stop)) (new_ctx sys_stop, []))) = Str ''early''
   \<and> Qyvr_fire [''sys'' \<mapsto> sys_stop] ''sys.login.call'' [] =
       (take 2 (hooks sys_stop), Resolved (Str ''early''))
   \<and> map cb (hooks ns_args) = [cb_set_arg0 (Str ''changed''), cb_first_arg]
   \<and> fire [''ns'' \<mapsto> ns_args] ''ns.x.call'' [Str ''orig'']
       = (hooks ns_args, Resolved (Str ''changed''))
   \<and> state_after (hooks ns_args) (new_ctx ns_args, [Str ''orig''])
       = (new_ctx ns_args\<lparr>return := Str ''changed''\<rparr>, [Str ''changed''])"
proof -
  have p: "parse ''sys.login.call'' = (Some ''sys'', [''login''], Some ''call'')"
    by (simp add: parse_def shift_def pop_def)
  have g: "get [''sys'' \<mapsto> sys_stop] (Some ''sys'') = Some sys_stop"
    by (simp add: get_def)
  have p2: "parse ''ns.x.call'' = (Some ''ns'', [''x''], Some ''call'')"
    by (simp add: parse_def shift_def pop_def)
  have g2: "get [''ns'' \<mapsto> ns_args] (Some ''ns'') = Some ns_args"
    by (simp add: get_def)
  have e1: "fire [''sys'' \<mapsto> sys_stop] ''sys.login.call'' [] =
     (take 2 (hooks sys_stop), Resolved (Str ''early''))
   \<and> map cb (hooks sys_stop) = [cb_return (Str ''early''), cb_stop, cb_return (Str ''late'')]
   \<and> filter (fire_match (Some ''sys'') (Some ''call'') [''login'']) (hooks sys_stop)
       = take 2 (hooks sys_stop) @ drop 2 (hooks sys_stop)
   \<and> drop 2 (hooks sys_stop) \<noteq> []
   \<and> truthy (stopped (fst (state_after (take 2 (hooks sys_stop)) (new_ctx sys_stop, []))))
   \<and> passes (butlast (take 2 (hooks sys_stop))) (new_ctx sys_stop, [])
   \<and> resolves (cb (last (take 2 (hooks sys_stop)))
        (fst (state_after (butlast (take 2 (hooks sys_stop))) (new_ctx sys_stop, [])))
        (snd (state_after (butlast (take 2 (hooks sys_stop))) (new_ctx sys_stop, []))))
   \<and> list_all (\<lambda>h. \<forall>c a. resolves (cb h c a)) (hooks sys_stop)
   \<and> return (fst (state_after (take 2 (hooks sys_stop)) (new_ctx sys_stop, []))) = Str ''early''
   \<and> Qyvr_fire [''sys'' \<mapsto> sys_stop] ''sys.login.call'' [] =
       (take 2 (hooks sys_stop), Resolved (Str ''early''))"
    using fire_resolves_return_slot [of "''sys.login.call''" "Some ''sys''" "[''login'']"
        "Some ''call''" "[''sys'' \<mapsto> sys_stop]" sys_stop "[]" "take 2 (hooks sys_stop)"
        "Str ''early''", OF p g]
    by (simp add: sys_stop_eq fire_eval)
  have e2: "map cb (hooks ns_args) = [cb_set_arg0 (Str ''changed''), cb_first_arg]
   \<and> fire [''ns'' \<mapsto> ns_args] ''ns.x.call'' [Str ''orig'']
       = (hooks ns_args, Resolved (Str ''changed''))
   \<and> state_after (hooks ns_args) (new_ctx ns_args, [Str ''orig''])
       = (new_ctx ns_args\<lparr>return := Str ''changed''\<rparr>, [Str ''changed''])"
    using fire_resolves_return_slot [of "''ns.x.call''" "Some ''ns''" "[''x'']"
        "Some ''call''" "[''ns'' \<mapsto> ns_args]" ns_args "[Str ''orig'']" "hooks ns_args"
        "Str ''changed''", OF p2 g2]
    by (simp add: ns_args_eq fire_eval)
  from e1 e2 show ?thesis by blast
qed

text \<open>
  C6, as the code has it. Let the matched hooks be \<open>pre\<close>, then \<open>h\<close>, then \<open>post\<close>, where
  the hooks of \<open>pre\<close> resolve and leave \<^verbatim>\<open>ctx.stopped\<close> falsy, so that \<open>h\<close> is called,
  and let the callback of \<open>h\<close> throw or reject with \<open>e\<close>. Then \<^verbatim>\<open>fire\<close> calls \<open>pre\<close> and
  \<open>h\<close> and no hook of \<open>post\<close>, and its promise rejects with \<open>e\<close> itself: the reason is
  the very value that the callback threw or rejected with, and no error is put around
  it. A rejected promise delivers no value, whatever the return slot held after \<open>pre\<close>.
  The same holds for the class-based variant.
\<close>

theorem fire_rejects_on_throw:
  assumes "parse pattern = (id', pattern', action')" and "get Qyvents id' = Some ev"
    and "filter (fire_match id' action' pattern') (hooks ev) = pre @ h # post"
    and "passes pre (new_ctx ev, args')"
    and "cb h (fst (state_after pre (new_ctx ev, args'))) (snd (state_after pre (new_ctx ev, args')))
           = Rejected e"
  shows "fire Qyvents pattern args' = (pre @ [h], Rejected e)
       \<and> Qyvr_fire Qyvents pattern args' = (pre @ [h], Rejected e)"
proof -
  have "run_hooks (pre @ h # post) (new_ctx ev) args' = (pre @ [h], Rejected e)"
    using run_hooks_passes [OF assms(4), of "h # post"] assms(5) by simp
  with fire_found [OF assms(1,2), of args'] assms(3)
  have "fire Qyvents pattern args' = (pre @ [h], Rejected e)" by simp
  then show ?thesis by (simp add: Qyvr_fire_eq)
qed

theorem fire_rejects_on_throw_witness:
  "map cb (hooks sys_throw)
     = [cb_return (Str ''early''), cb_throw (Str ''boom''), cb_return (Str ''late'')]
   \<and> return (fst (state_after [hooks sys_throw ! 0] (new_ctx sys_throw, []))) = Str ''early''
   \<and> fire [''sys'' \<mapsto> sys_throw] ''sys.login.call'' [] =
       ([hooks sys_throw ! 0] @ [hooks sys_throw ! 1], Rejected (Thrown (Str ''boom'')))
   \<and> Qyvr_fire [''sys'' \<mapsto> sys_throw] ''sys.login.call'' [] =
       ([hooks sys_throw ! 0] @ [hooks sys_throw ! 1], Rejected (Thrown (Str ''boom'')))"
proof -
  have p: "parse ''sys.login.call'' = (Some ''sys'', [''login''], Some ''call'')"
    by (simp add: parse_def shift_def pop_def)
  have g: "get [''sys'' \<mapsto> sys_throw] (Some ''sys'') = Some sys_throw"
    by (simp add: get_def)
  have m: "filter (fire_match (Some ''sys'') (Some ''call'') [''login'']) (hooks sys_throw)
            = [hooks sys_throw ! 0] @ hooks sys_throw ! 1 # [hooks sys_throw ! 2]"
    by (simp add: sys_throw_eq fire_eval)
  have q: "passes [hooks sys_throw ! 0] (new_ctx sys_throw, [])"
    by (simp add: sys_throw_eq fire_eval)
  have t: "cb (hooks sys_throw ! 1)
             (fst (state_after [hooks sys_throw ! 0] (new_ctx sys_throw, [])))
             (snd (state_after [hooks sys_throw ! 0] (new_ctx sys_throw, [])))
            = Rejected (Thrown (Str ''boom''))"
    by (simp add: sys_throw_eq fire_eval)
  have r: "return (fst (state_after [hooks sys_throw ! 0] (new_ctx sys_throw, []))) = Str ''early''"
    by (simp add: sys_throw_eq fire_eval)
  have c: "map cb (hooks sys_throw)
     = [cb_return (Str ''early''), cb_throw (Str ''boom''), cb_return (Str ''late'')]"
    by (simp add: sys_throw_eq)
  from fire_rejects_on_throw [OF p g m q t] r c show ?thesis by simp
qed

text \<open>
  No error is put around the cause: here the callback throws the string \<^verbatim>\<open>'boom'\<close>,
  and the reason of the rejection of \<^verbatim>\<open>fire\<close> is that string, the outcome of the
  callback unchanged.
\<close>

theorem fire_rejects_with_bare_cause:
  "cb (hooks sys_throw ! 1)
      (fst (state_after [hooks sys_throw ! 0] (new_ctx sys_throw, [])))
      (snd (state_after [hooks sys_throw ! 0] (new_ctx sys_throw, [])))
     = Rejected (Thrown (Str ''boom''))
   \<and> snd (fire [''sys'' \<mapsto> sys_throw] ''sys.login.call'' []) = Rejected (Thrown (Str ''boom''))
   \<and> snd (Qyvr_fire [''sys'' \<mapsto> sys_throw] ''sys.login.call'' [])
       = Rejected (Thrown (Str ''boom''))"
  by (simp add: sys_throw_eq fire_eval Qyvr_fire_eq)

subsection \<open>\<^verbatim>\<open>has\<close>\<close>

lemma findIndex_from_found:
  "0 \<le> i \<Longrightarrow> (findIndex_from p xs i > -1) = (\<exists>x \<in> set xs. p x)"
  by (induction xs arbitrary: i) auto

lemma findIndex_found: "(findIndex p xs > -1) = (\<exists>x \<in> set xs. p x)"
  by (simp add: findIndex_def findIndex_from_found)

lemma split_dot_no_dot: "CHR ''.'' \<notin> set s \<Longrightarrow> split_dot s = [s]"
  by (induction s) auto

lemma split_dot_segments: "x \<in> set (split_dot s) \<Longrightarrow> CHR ''.'' \<notin> set x"
proof (induction s arbitrary: x)
  case Nil
  then show ?case by simp
next
  case (Cons c cs)
  then show ?case
    by (cases "split_dot cs") (auto split: if_splits)
qed

lemma split_dot_append:
  "CHR ''.'' \<notin> set x \<Longrightarrow> split_dot (x @ CHR ''.'' # s) = x # split_dot s"
  by (induction x) auto

lemma split_dot_join_dot:
  "xs \<noteq> [] \<Longrightarrow> \<forall>x \<in> set xs. CHR ''.'' \<notin> set x \<Longrightarrow> split_dot (join_dot xs) = xs"
proof (induction xs rule: join_dot.induct)
  case 1
  then show ?case by simp
next
  case (2 x)
  then show ?case by (simp add: split_dot_no_dot)
next
  case (3 x y ys)
  then show ?case by (simp add: split_dot_append)
qed

lemma new_Set_snoc: "new_Set (xs @ [x]) = set_add (new_Set xs) x"
  by (simp add: new_Set_def)

lemma set_new_Set: "set (new_Set xs) = set xs"
  by (induction xs rule: rev_induct) (auto simp: new_Set_snoc set_add_def, simp add: new_Set_def)

lemma distinct_new_Set: "distinct (new_Set xs)"
  by (induction xs rule: rev_induct) (auto simp: new_Set_snoc set_add_def, simp add: new_Set_def)

lemma foldl_set_add_Cons:
  "foldl set_add (x # s) xs = x # foldl set_add s (removeAll x xs)"
proof (induction xs arbitrary: s)
  case Nil
  show ?case by simp
next
  case (Cons y ys)
  show ?case
  proof (cases "y = x")
    case True
    then show ?thesis using Cons.IH [of s] by (simp add: set_add_def)
  next
    case False
    then have "set_add (x # s) y = x # set_add s y"
      by (simp add: set_add_def)
    then show ?thesis using False Cons.IH [of "set_add s y"] by simp
  qed
qed

lemma new_Set_Cons: "new_Set (x # xs) = x # new_Set (removeAll x xs)"
  using foldl_set_add_Cons [of x "[]" xs] by (simp add: new_Set_def set_add_def)

lemma new_Set_Nil: "new_Set [] = []"
  by (simp add: new_Set_def)

lemma new_Set_distinct: "distinct xs \<Longrightarrow> new_Set xs = xs"
  by (induction xs) (simp_all add: new_Set_Cons new_Set_Nil)

lemma new_Set_idem: "new_Set (x # new_Set (x # xs)) = new_Set (x # xs)"
proof -
  have d: "distinct (new_Set (removeAll x xs))" by (rule distinct_new_Set)
  have n: "x \<notin> set (new_Set (removeAll x xs))" by (simp add: set_new_Set)
  have "new_Set (x # new_Set (x # xs)) = x # new_Set (removeAll x (new_Set (x # xs)))"
    by (rule new_Set_Cons)
  also have "removeAll x (new_Set (x # xs)) = new_Set (removeAll x xs)"
    using n by (simp add: new_Set_Cons)
  also have "new_Set (new_Set (removeAll x xs)) = new_Set (removeAll x xs)"
    using d by (rule new_Set_distinct)
  finally show ?thesis by (simp add: new_Set_Cons)
qed

lemma Qyvent_has_iff:
  assumes "shift (new_Set (qyvent_id ev # split_dot pattern)) = (id', pattern1)"
    and "pop pattern1 = (action', pattern')"
  shows "Qyvent_has ev pattern \<longleftrightarrow>
     (\<exists>h \<in> set (hooks ev). hook_id h = id' \<and> action h = action'
        \<and> join_dot (name h) = join_dot pattern')"
  using assms by (auto simp: Qyvent_has_def findIndex_found)


lemma Qyvent_has_dedup:
  assumes "CHR ''.'' \<notin> set (qyvent_id ev)"
  shows "Qyvent_has ev pattern
       = Qyvent_has ev (join_dot (new_Set (qyvent_id ev # split_dot pattern)))"
proof -
  let ?segs = "new_Set (qyvent_id ev # split_dot pattern)"
  have ne: "?segs \<noteq> []" by (simp add: new_Set_Cons)
  have "\<forall>x \<in> set ?segs. CHR ''.'' \<notin> set x"
    using assms by (auto simp: set_new_Set dest: split_dot_segments)
  with ne have "split_dot (join_dot ?segs) = ?segs"
    by (rule split_dot_join_dot)
  then have "new_Set (qyvent_id ev # split_dot (join_dot ?segs)) = ?segs"
    by (simp add: new_Set_idem)
  then show ?thesis
    by (simp add: Qyvent_has_def)
qed

text \<open>
  What \<^verbatim>\<open>Qyvent.has\<close> compares: the namespace's own id, and the segments of the pattern
  other than that id, each at its first occurrence only.
\<close>

lemma Qyvent_has_segments:
  "Qyvent_has ev pattern \<longleftrightarrow>
     (\<exists>h \<in> set (hooks ev). hook_id h = Some (qyvent_id ev)
        \<and> action h = fst (pop (new_Set (removeAll (qyvent_id ev) (split_dot pattern))))
        \<and> join_dot (name h)
            = join_dot (snd (pop (new_Set (removeAll (qyvent_id ev) (split_dot pattern))))))"
proof -
  have "shift (new_Set (qyvent_id ev # split_dot pattern))
          = (Some (qyvent_id ev), new_Set (removeAll (qyvent_id ev) (split_dot pattern)))"
    by (simp add: new_Set_Cons shift_def)
  from Qyvent_has_iff [OF this, of "fst (pop (new_Set (removeAll (qyvent_id ev) (split_dot pattern))))"
      "snd (pop (new_Set (removeAll (qyvent_id ev) (split_dot pattern))))"]
  show ?thesis by simp
qed


lemmas has_eval = Qyvr_has_def Qyvent_has_def Qyvent_filter_def findIndex_def new_Set_def
  set_add_def parse_def shift_def pop_def get_def at_def




lemma Qyvent_has_one_segment:
  assumes "CHR ''.'' \<notin> set pattern"
  shows "Qyvent_has ev pattern \<longleftrightarrow>
     (\<exists>h \<in> set (hooks ev). hook_id h = Some (qyvent_id ev)
        \<and> action h = (if pattern = qyvent_id ev then None else Some pattern)
        \<and> join_dot (name h) = [])"
proof (cases "pattern = qyvent_id ev")
  case True
  have "new_Set (removeAll (qyvent_id ev) (split_dot pattern)) = []"
    using assms True by (simp add: split_dot_no_dot new_Set_Nil)
  then show ?thesis
    using True by (simp add: Qyvent_has_segments pop_def)
next
  case False
  have "new_Set (removeAll (qyvent_id ev) (split_dot pattern)) = [pattern]"
    using assms False by (simp add: split_dot_no_dot new_Set_distinct)
  then show ?thesis
    using False by (simp add: Qyvent_has_segments pop_def)
qed

text \<open>
  C9, as the code has it. A pattern without a dot has one segment. Parsing it does not
  fail: the namespace id is the whole pattern, there are no name parts, and the action
  is \<^verbatim>\<open>undefined\<close>. When the namespace exists the operations go on with these:
  \<^verbatim>\<open>addHook\<close> stores a hook without name parts and with an \<^verbatim>\<open>undefined\<close> action;
  \<^verbatim>\<open>fire\<close> runs its loop over the stored hooks of that shape, so that its promise
  resolves or rejects as these hooks make it; \<^verbatim>\<open>Qyvr.has\<close> tells whether a hook with
  that id, an \<^verbatim>\<open>undefined\<close> action and name parts that join to the empty string is
  stored. \<^verbatim>\<open>Qyvent.has\<close> of \<^verbatim>\<open>Qyvr.mjs\<close>, which puts the namespace's own id in front,
  looks among the namespace's hooks for one with the namespace's id and name parts that
  join to the empty string, whose action is \<^verbatim>\<open>undefined\<close> when the pattern is the
  namespace's id and is the pattern otherwise.
\<close>

theorem one_segment_pattern_proceeds:
  assumes "CHR ''.'' \<notin> set pattern"
  shows "parse pattern = (Some pattern, [], None)
       \<and> (Qyvents pattern = Some ev \<longrightarrow>
            addHook Qyvents pattern cb' phase'
              = Inr (Qyvents(pattern \<mapsto> fst (Qyvent_hook ev pattern cb' phase')), next_ref ev)
            \<and> hookObj ev pattern cb' phase'
              = \<lparr>ref = next_ref ev, hook_id = Some pattern, name = [], action = None, cb = cb',
                  phase = (case phase' of None \<Rightarrow> main ev | Some p \<Rightarrow> Some p)\<rparr>
            \<and> hookObj ev pattern cb' phase' \<in> set (hooks (fst (Qyvent_hook ev pattern cb' phase')))
            \<and> fire Qyvents pattern args'
              = (fst (run_hooks (filter (fire_match (Some pattern) None []) (hooks ev))
                        (new_ctx ev) args'),
                 return_of (snd (run_hooks (filter (fire_match (Some pattern) None []) (hooks ev))
                        (new_ctx ev) args')))
            \<and> Qyvr_fire Qyvents pattern args' = fire Qyvents pattern args'
            \<and> (filter (fire_match (Some pattern) None []) (hooks ev) = [] \<longrightarrow>
                 fire Qyvents pattern args' = ([], Resolved Undefined))
            \<and> Qyvr_has Qyvents pattern
              = Bool (\<exists>h \<in> set (hooks ev). hook_id h = Some pattern \<and> action h = None
                        \<and> join_dot (name h) = []))
       \<and> (Qyvent_has ev pattern \<longleftrightarrow>
            (\<exists>h \<in> set (hooks ev). hook_id h = Some (qyvent_id ev)
               \<and> action h = (if pattern = qyvent_id ev then None else Some pattern)
               \<and> join_dot (name h) = []))"
proof -
  have p: "parse pattern = (Some pattern, [], None)"
    using assms by (simp add: parse_def split_dot_no_dot shift_def pop_def)
  have i: "at (split_dot_limit pattern 1) 0 = Some pattern"
    using split_limit_id [of pattern] p by simp
  have m: "Qyvents pattern = Some ev \<longrightarrow>
            addHook Qyvents pattern cb' phase'
              = Inr (Qyvents(pattern \<mapsto> fst (Qyvent_hook ev pattern cb' phase')), next_ref ev)
            \<and> hookObj ev pattern cb' phase'
              = \<lparr>ref = next_ref ev, hook_id = Some pattern, name = [], action = None, cb = cb',
                  phase = (case phase' of None \<Rightarrow> main ev | Some p \<Rightarrow> Some p)\<rparr>
            \<and> hookObj ev pattern cb' phase' \<in> set (hooks (fst (Qyvent_hook ev pattern cb' phase')))
            \<and> fire Qyvents pattern args'
              = (fst (run_hooks (filter (fire_match (Some pattern) None []) (hooks ev))
                        (new_ctx ev) args'),
                 return_of (snd (run_hooks (filter (fire_match (Some pattern) None []) (hooks ev))
                        (new_ctx ev) args')))
            \<and> Qyvr_fire Qyvents pattern args' = fire Qyvents pattern args'
            \<and> (filter (fire_match (Some pattern) None []) (hooks ev) = [] \<longrightarrow>
                 fire Qyvents pattern args' = ([], Resolved Undefined))
            \<and> Qyvr_has Qyvents pattern
              = Bool (\<exists>h \<in> set (hooks ev). hook_id h = Some pattern \<and> action h = None
                        \<and> join_dot (name h) = [])"
  proof
    assume e: "Qyvents pattern = Some ev"
    then have g: "get Qyvents (Some pattern) = Some ev" by (simp add: get_def)
    have 1: "addHook Qyvents pattern cb' phase'
              = Inr (Qyvents(pattern \<mapsto> fst (Qyvent_hook ev pattern cb' phase')), next_ref ev)"
      using i g by (simp add: addHook_def Qyvent_hook_def hookObj_def Let_def split: prod.splits)
    have 2: "hookObj ev pattern cb' phase'
              = \<lparr>ref = next_ref ev, hook_id = Some pattern, name = [], action = None, cb = cb',
                  phase = (case phase' of None \<Rightarrow> main ev | Some p \<Rightarrow> Some p)\<rparr>"
      by (simp add: hookObj_def p)
    have 6: "hookObj ev pattern cb' phase' \<in> set (hooks (fst (Qyvent_hook ev pattern cb' phase')))"
      by (simp add: Qyvent_hook_hooks)
    note 3 = fire_found [OF p g, of args']
    have 4: "Qyvr_has Qyvents pattern
              = Bool (\<exists>h \<in> set (hooks ev). hook_id h = Some pattern \<and> action h = None
                        \<and> join_dot (name h) = [])"
    proof -
      have "(\<exists>x \<in> set (hooks ev). Some pattern = hook_id x \<and> None = action x
                \<and> [] = join_dot (name x))
          = (\<exists>h \<in> set (hooks ev). hook_id h = Some pattern \<and> action h = None
                \<and> join_dot (name h) = [])"
        by (intro bex_cong refl) auto
      then show ?thesis
        using g by (simp add: Qyvr_has_def p findIndex_found)
    qed
    have 5: "filter (fire_match (Some pattern) None []) (hooks ev) = [] \<longrightarrow>
                 fire Qyvents pattern args' = ([], Resolved Undefined)"
      using 3 by (simp add: new_ctx_def)
    from 1 2 3 4 5 6 show "addHook Qyvents pattern cb' phase'
              = Inr (Qyvents(pattern \<mapsto> fst (Qyvent_hook ev pattern cb' phase')), next_ref ev)
            \<and> hookObj ev pattern cb' phase'
              = \<lparr>ref = next_ref ev, hook_id = Some pattern, name = [], action = None, cb = cb',
                  phase = (case phase' of None \<Rightarrow> main ev | Some p \<Rightarrow> Some p)\<rparr>
            \<and> hookObj ev pattern cb' phase' \<in> set (hooks (fst (Qyvent_hook ev pattern cb' phase')))
            \<and> fire Qyvents pattern args'
              = (fst (run_hooks (filter (fire_match (Some pattern) None []) (hooks ev))
                        (new_ctx ev) args'),
                 return_of (snd (run_hooks (filter (fire_match (Some pattern) None []) (hooks ev))
                        (new_ctx ev) args')))
            \<and> Qyvr_fire Qyvents pattern args' = fire Qyvents pattern args'
            \<and> (filter (fire_match (Some pattern) None []) (hooks ev) = [] \<longrightarrow>
                 fire Qyvents pattern args' = ([], Resolved Undefined))
            \<and> Qyvr_has Qyvents pattern
              = Bool (\<exists>h \<in> set (hooks ev). hook_id h = Some pattern \<and> action h = None
                        \<and> join_dot (name h) = [])"
      by (simp add: Qyvr_fire_eq)
  qed
  note h = Qyvent_has_one_segment [OF assms, of ev]
  from p m h show ?thesis by blast
qed

theorem one_segment_pattern_proceeds_witness:
  "CHR ''.'' \<notin> set ''sys''
   \<and> [''sys'' \<mapsto> sys_stop] ''sys'' = Some sys_stop
   \<and> parse ''sys'' = (Some ''sys'', [], None)
   \<and> addHook [''sys'' \<mapsto> sys_stop] ''sys'' (cb_return (Str ''one'')) None
       = Inr ([''sys'' \<mapsto> sys_one], 3)
   \<and> filter (fire_match (Some ''sys'') None []) (hooks sys_stop) = []
   \<and> fire [''sys'' \<mapsto> sys_stop] ''sys'' [] = ([], Resolved Undefined)
   \<and> Qyvr_has [''sys'' \<mapsto> sys_stop] ''sys'' = Bool False
   \<and> \<not> Qyvent_has sys_stop ''sys''
   \<and> fire [''sys'' \<mapsto> sys_one] ''sys'' [] = ([hooks sys_one ! 2], Resolved (Str ''one''))
   \<and> Qyvr_has [''sys'' \<mapsto> sys_one] ''sys'' = Bool True
   \<and> Qyvent_has sys_one ''sys''
   \<and> fire [''sys'' \<mapsto> sys_one_throw] ''sys'' []
       = ([hooks sys_one_throw ! 2], Rejected (Thrown (Str ''boom'')))"
proof -
  have d: "CHR ''.'' \<notin> set ''sys''" by simp
  have g: "[''sys'' \<mapsto> sys_stop] ''sys'' = Some sys_stop" by simp
  note t = one_segment_pattern_proceeds [OF d, of "[''sys'' \<mapsto> sys_stop]" sys_stop
      "cb_return (Str ''one'')" None "[]"]
  from t have p: "parse ''sys'' = (Some ''sys'', [], None)"
    by blast
  have n: "filter (fire_match (Some ''sys'') None []) (hooks sys_stop) = []"
    by (simp add: sys_stop_eq fire_match_def)
  from t g n have f: "fire [''sys'' \<mapsto> sys_stop] ''sys'' [] = ([], Resolved Undefined)"
    by blast
  from t g have "addHook [''sys'' \<mapsto> sys_stop] ''sys'' (cb_return (Str ''one'')) None
       = Inr ([''sys'' \<mapsto> sys_stop,
               ''sys'' \<mapsto> fst (Qyvent_hook sys_stop ''sys'' (cb_return (Str ''one'')) None)],
              next_ref sys_stop)"
    by blast
  moreover have "next_ref sys_stop = 3"
    by (simp add: sys_stop_eq)
  ultimately have a: "addHook [''sys'' \<mapsto> sys_stop] ''sys'' (cb_return (Str ''one'')) None
       = Inr ([''sys'' \<mapsto> sys_one], 3)"
    by (simp add: sys_one_def)
  have h1: "Qyvr_has [''sys'' \<mapsto> sys_stop] ''sys'' = Bool False"
    by (simp add: sys_stop_eq has_eval)
  have h2: "\<not> Qyvent_has sys_stop ''sys''"
    by (simp add: sys_stop_eq has_eval)
  have f2: "fire [''sys'' \<mapsto> sys_one] ''sys'' [] = ([hooks sys_one ! 2], Resolved (Str ''one''))"
    by (simp add: sys_one_eq fire_eval)
  have h3: "Qyvr_has [''sys'' \<mapsto> sys_one] ''sys'' = Bool True"
    by (simp add: sys_one_eq has_eval)
  have h4: "Qyvent_has sys_one ''sys''"
    by (simp add: sys_one_eq has_eval)
  have f3: "fire [''sys'' \<mapsto> sys_one_throw] ''sys'' []
       = ([hooks sys_one_throw ! 2], Rejected (Thrown (Str ''boom'')))"
    by (simp add: sys_one_throw_eq fire_eval)
  from d g p a n f h1 h2 f2 h3 h4 f3 show ?thesis
    by (intro conjI)
qed

theorem one_segment_pattern_no_failure:
  "parse ''sys'' = (Some ''sys'', [], None)
   \<and> fire [''sys'' \<mapsto> sys_stop] ''sys'' [] = ([], Resolved Undefined)
   \<and> \<not> isl (addHook [''sys'' \<mapsto> sys_stop] ''sys'' cb_stop None)
   \<and> Qyvr_has [''sys'' \<mapsto> sys_stop] ''sys'' = Bool False"
  by (simp add: sys_stop_eq fire_eval Qyvr_has_def findIndex_def addHook_def eval_defs Let_def)

text \<open>
  C10. \<^verbatim>\<open>Qyvent.has\<close> of \<^verbatim>\<open>Qyvr.mjs\<close> compares the segments of
  \<^verbatim>\<open>[...new Set([this.id, ...pattern.split('.')])]\<close>: the namespace id comes first, and
  every segment is kept at its first occurrence only, so the segments are distinct. It
  returns true exactly when a stored hook has the namespace's id, the last of the
  remaining segments as its action, and name parts whose \<^verbatim>\<open>join('.')\<close> is that of the
  segments in between. A pattern is therefore treated as the pattern that joins the
  deduplicated segments (for a namespace id without a dot). With a hook at
  \<^verbatim>\<open>'ns.a.call'\<close> only, whose name parts are \<^verbatim>\<open>['a']\<close>, \<^verbatim>\<open>has('ns.a.a.call')\<close> is true.
\<close>

theorem has_deduplicates:
  "new_Set (x # xs) = x # new_Set (removeAll x xs)
   \<and> distinct (new_Set (qyvent_id ev # split_dot pattern))
   \<and> set (new_Set (qyvent_id ev # split_dot pattern)) = insert (qyvent_id ev) (set (split_dot pattern))
   \<and> (Qyvent_has ev pattern \<longleftrightarrow>
        (\<exists>h \<in> set (hooks ev). hook_id h = Some (qyvent_id ev)
           \<and> action h = fst (pop (new_Set (removeAll (qyvent_id ev) (split_dot pattern))))
           \<and> join_dot (name h)
               = join_dot (snd (pop (new_Set (removeAll (qyvent_id ev) (split_dot pattern)))))))
   \<and> (CHR ''.'' \<notin> set (qyvent_id ev) \<longrightarrow>
        Qyvent_has ev pattern
          = Qyvent_has ev (join_dot (new_Set (qyvent_id ev # split_dot pattern))))
   \<and> new_Set (qyvent_id ns_a # split_dot ''ns.a.a.call'') = [''ns'', ''a'', ''call'']
   \<and> map name (hooks ns_a) = [[''a'']]
   \<and> Qyvent_has ns_a ''ns.a.a.call''"
proof (intro conjI)
  show "new_Set (x # xs) = x # new_Set (removeAll x xs)"
    by (rule new_Set_Cons)
  show "distinct (new_Set (qyvent_id ev # split_dot pattern))"
    by (rule distinct_new_Set)
  show "set (new_Set (qyvent_id ev # split_dot pattern))
          = insert (qyvent_id ev) (set (split_dot pattern))"
    by (simp add: set_new_Set)
  show "Qyvent_has ev pattern \<longleftrightarrow>
        (\<exists>h \<in> set (hooks ev). hook_id h = Some (qyvent_id ev)
           \<and> action h = fst (pop (new_Set (removeAll (qyvent_id ev) (split_dot pattern))))
           \<and> join_dot (name h)
               = join_dot (snd (pop (new_Set (removeAll (qyvent_id ev) (split_dot pattern))))))"
    by (rule Qyvent_has_segments)
  show "CHR ''.'' \<notin> set (qyvent_id ev) \<longrightarrow>
        Qyvent_has ev pattern
          = Qyvent_has ev (join_dot (new_Set (qyvent_id ev # split_dot pattern)))"
    using Qyvent_has_dedup [of ev pattern] by blast
  show "new_Set (qyvent_id ns_a # split_dot ''ns.a.a.call'') = [''ns'', ''a'', ''call'']"
    by (simp add: ns_a_eq new_Set_def set_add_def)
  show "map name (hooks ns_a) = [[''a'']]"
    by (simp add: ns_a_eq)
  show "Qyvent_has ns_a ''ns.a.a.call''"
    by (simp add: ns_a_eq has_eval)
qed

theorem has_deduplicates_witness:
  "CHR ''.'' \<notin> set (qyvent_id ns_a)
   \<and> join_dot (new_Set (qyvent_id ns_a # split_dot ''ns.a.a.call'')) = ''ns.a.call''
   \<and> pop (new_Set (removeAll (qyvent_id ns_a) (split_dot ''ns.a.a.call''))) = (Some ''call'', [''a''])
   \<and> (\<exists>h \<in> set (hooks ns_a). hook_id h = Some (qyvent_id ns_a) \<and> action h = Some ''call''
         \<and> join_dot (name h) = join_dot [''a''])
   \<and> Qyvent_has ns_a ''ns.a.a.call'' = Qyvent_has ns_a ''ns.a.call''
   \<and> Qyvent_has ns_a ''ns.a.a.call''
   \<and> \<not> Qyvent_has ns_a ''ns.b.b.call''"
proof -
  note t = has_deduplicates [of "''ns''" "[]" ns_a "''ns.a.a.call''"]
  note u = has_deduplicates [of "''ns''" "[]" ns_a "''ns.b.b.call''"]
  have d: "CHR ''.'' \<notin> set (qyvent_id ns_a)"
    by (simp add: ns_a_eq)
  have j: "join_dot (new_Set (qyvent_id ns_a # split_dot ''ns.a.a.call'')) = ''ns.a.call''"
    by (simp add: ns_a_eq new_Set_def set_add_def)
  have k: "pop (new_Set (removeAll (qyvent_id ns_a) (split_dot ''ns.a.a.call'')))
             = (Some ''call'', [''a''])"
    by (simp add: ns_a_eq new_Set_def set_add_def pop_def)
  have k': "pop (new_Set (removeAll (qyvent_id ns_a) (split_dot ''ns.b.b.call'')))
             = (Some ''call'', [''b''])"
    by (simp add: ns_a_eq new_Set_def set_add_def pop_def)
  have x: "\<exists>h \<in> set (hooks ns_a). hook_id h = Some (qyvent_id ns_a) \<and> action h = Some ''call''
         \<and> join_dot (name h) = join_dot [''a'']"
    by (simp add: ns_a_eq)
  have y: "\<not> (\<exists>h \<in> set (hooks ns_a). hook_id h = Some (qyvent_id ns_a) \<and> action h = Some ''call''
         \<and> join_dot (name h) = join_dot [''b''])"
    by (simp add: ns_a_eq)
  from t d have "Qyvent_has ns_a ''ns.a.a.call''
      = Qyvent_has ns_a (join_dot (new_Set (qyvent_id ns_a # split_dot ''ns.a.a.call'')))"
    by blast
  then have e: "Qyvent_has ns_a ''ns.a.a.call'' = Qyvent_has ns_a ''ns.a.call''"
    by (simp only: j)
  from t have "Qyvent_has ns_a ''ns.a.a.call'' \<longleftrightarrow>
        (\<exists>h \<in> set (hooks ns_a). hook_id h = Some (qyvent_id ns_a)
           \<and> action h = fst (pop (new_Set (removeAll (qyvent_id ns_a) (split_dot ''ns.a.a.call''))))
           \<and> join_dot (name h)
               = join_dot (snd (pop (new_Set (removeAll (qyvent_id ns_a) (split_dot ''ns.a.a.call''))))))"
    by blast
  with k x have h: "Qyvent_has ns_a ''ns.a.a.call''"
    by simp
  from u have "Qyvent_has ns_a ''ns.b.b.call'' \<longleftrightarrow>
        (\<exists>h \<in> set (hooks ns_a). hook_id h = Some (qyvent_id ns_a)
           \<and> action h = fst (pop (new_Set (removeAll (qyvent_id ns_a) (split_dot ''ns.b.b.call''))))
           \<and> join_dot (name h)
               = join_dot (snd (pop (new_Set (removeAll (qyvent_id ns_a) (split_dot ''ns.b.b.call''))))))"
    by blast
  with k' y have n: "\<not> Qyvent_has ns_a ''ns.b.b.call''"
    by simp
  from d j k x e h n show ?thesis
    by (intro conjI)
qed

end
